theory Spec2Isabelle
  imports Main "HOL-Library.Sublist"
begin

section \<open>Strings and character classes\<close>

text \<open>
  A JavaScript string is modelled as a \<^typ>\<open>string\<close>, one \<^typ>\<open>char\<close> per code unit
  below 256. In that range the regular-expression class \<open>\s\<close> (and the characters removed
  by \<open>String.prototype.trim\<close>) are TAB, LF, VT, FF, CR, SPACE and NO-BREAK SPACE; \<open>\d\<close>
  is \<open>[0-9]\<close> and \<open>\w\<close> is \<open>[A-Za-z0-9_]\<close>.
\<close>

definition isSpace :: "char \<Rightarrow> bool" where
  "isSpace c = (c = CHR 0x09 \<or> c = CHR 0x0A \<or> c = CHR 0x0B \<or> c = CHR 0x0C \<or> c = CHR 0x0D
     \<or> c = CHR 0x20 \<or> c = CHR 0xA0)"

definition isDigit :: "char \<Rightarrow> bool" where
  "isDigit c = (c \<in> set ''0123456789'')"

definition isWordChar :: "char \<Rightarrow> bool" where
  "isWordChar c = (c \<in> set ''abcdefghijklmnopqrstuvwxyzABCDEFGHIJKLMNOPQRSTUVWXYZ0123456789_'')"

text \<open>\<open>s.trim()\<close>.\<close>

definition trim :: "string \<Rightarrow> string" where
  "trim s = rev (dropWhile isSpace (rev (dropWhile isSpace s)))"

text \<open>
  \<open>s.split(/\s+/)\<close>: every maximal run of whitespace is one separator; a leading or a
  trailing run leaves an empty first or last element, and the empty string gives \<open>[""]\<close>.
\<close>

function splitWs :: "string \<Rightarrow> string list" where
  "splitWs [] = [[]]"
| "splitWs (c # cs) =
     (if isSpace c then [] # splitWs (dropWhile isSpace cs)
      else (case splitWs cs of [] \<Rightarrow> [[c]] | w # ws \<Rightarrow> (c # w) # ws))"
  by pat_completeness auto
termination
  by (relation "measure length") (auto simp: less_Suc_eq_le length_dropWhile_le)

text \<open>\<open>content.split(/\s+/).filter(Boolean)\<close>: the whitespace-delimited tokens.\<close>

definition tokens :: "string \<Rightarrow> string list" where
  "tokens s = filter (\<lambda>w. w \<noteq> []) (splitWs s)"

text \<open>\<open>w.replace(/^[^\w]+|[^\w]+$/g, "")\<close>: the leading and the trailing run of non-word
  characters are removed.\<close>

definition stripEdges :: "string \<Rightarrow> string" where
  "stripEdges w =
     rev (dropWhile (\<lambda>c. \<not> isWordChar c) (rev (dropWhile (\<lambda>c. \<not> isWordChar c) w)))"

text \<open>\<open>words.slice(0, n)\<close>; a negative \<open>n\<close> counts from the end.\<close>

definition slice0 :: "'a list \<Rightarrow> int \<Rightarrow> 'a list" where
  "slice0 xs n = (if n < 0 then take (nat (int (length xs) + n)) xs else take (nat n) xs)"

text \<open>\<open>parts.join(sep)\<close>.\<close>

fun joinWith :: "string \<Rightarrow> string list \<Rightarrow> string" where
  "joinWith sep [] = []"
| "joinWith sep [x] = x"
| "joinWith sep (x # y # ys) = x @ sep @ joinWith sep (y # ys)"

section \<open>The keyword patterns of pickAnchorWords\<close>

text \<open>
  The patterns of \<open>pickAnchorWords\<close> use literal characters, optional characters
  (\<open>c?\<close>, greedy) and the word boundary \<open>\b\<close>, all under the flag \<open>i\<close>. Without the flag
  \<open>u\<close> a character outside ASCII never folds to an ASCII one, so only the ASCII
  letters are compared by case.
\<close>

datatype rx = Req char | Opt char | WB

definition toLower :: "char \<Rightarrow> char" where
  "toLower c = (case map_of (zip ''ABCDEFGHIJKLMNOPQRSTUVWXYZ'' ''abcdefghijklmnopqrstuvwxyz'') c
                of Some l \<Rightarrow> l | None \<Rightarrow> c)"

definition ciEq :: "char \<Rightarrow> char \<Rightarrow> bool" where
  "ciEq a b = (toLower a = toLower b)"

definition isWordOpt :: "char option \<Rightarrow> bool" where
  "isWordOpt c = (case c of None \<Rightarrow> False | Some x \<Rightarrow> isWordChar x)"

definition nextChar :: "string \<Rightarrow> char option" where
  "nextChar s = (case s of [] \<Rightarrow> None | x # _ \<Rightarrow> Some x)"

text \<open>\<open>\b\<close> between the previous character (if any) and the next one (if any).\<close>

definition wordBoundary :: "char option \<Rightarrow> string \<Rightarrow> bool" where
  "wordBoundary prev s = (isWordOpt prev \<noteq> isWordOpt (nextChar s))"

text \<open>The match of a pattern at the start of \<open>s\<close>, \<open>prev\<close> being the character before
  it: the matched text, or \<open>None\<close>. An optional character is tried first and given up when
  the rest of the pattern fails (backtracking).\<close>

fun matchRx :: "rx list \<Rightarrow> char option \<Rightarrow> string \<Rightarrow> string option" where
  "matchRx [] prev s = Some []"
| "matchRx (WB # ps) prev s = (if wordBoundary prev s then matchRx ps prev s else None)"
| "matchRx (Req c # ps) prev [] = None"
| "matchRx (Req c # ps) prev (x # xs) =
     (if ciEq c x then map_option (\<lambda>w. x # w) (matchRx ps (Some x) xs) else None)"
| "matchRx (Opt c # ps) prev [] = matchRx ps prev []"
| "matchRx (Opt c # ps) prev (x # xs) =
     (case (if ciEq c x then map_option (\<lambda>w. x # w) (matchRx ps (Some x) xs) else None) of
        Some w \<Rightarrow> Some w
      | None \<Rightarrow> matchRx ps prev (x # xs))"

text \<open>\<open>s.match(re)\<close> for a pattern without the flag \<open>g\<close>: the leftmost match, \<open>m[0]\<close>.\<close>

fun searchRx :: "rx list \<Rightarrow> char option \<Rightarrow> string \<Rightarrow> string option" where
  "searchRx ps prev [] = matchRx ps prev []"
| "searchRx ps prev (x # xs) =
     (case matchRx ps prev (x # xs) of Some w \<Rightarrow> Some w | None \<Rightarrow> searchRx ps (Some x) xs)"

text \<open>\<open>re.test(s)\<close>.\<close>

definition testRx :: "rx list \<Rightarrow> string \<Rightarrow> bool" where
  "testRx ps s = (searchRx ps None s \<noteq> None)"

definition lit :: "string \<Rightarrow> rx list" where
  "lit w = map Req w"

text \<open>\<open>/\bWORD\b/i\<close> and \<open>/\bWORDc?\b/i\<close>.\<close>

definition kw :: "rx list \<Rightarrow> rx list" where
  "kw ps = WB # ps @ [WB]"

definition patterns :: "rx list list" where
  "patterns =
    [ kw (lit ''hypnozoite''),
      kw (lit ''Schuffner'' @ [Opt (CHR 0x27), Req CHR ''s'']),
      kw (lit ''dot'' @ [Opt CHR ''s'']),
      kw (lit ''merozoite'' @ [Opt CHR ''s'']),
      kw (lit ''schizont'' @ [Opt CHR ''s'']),
      kw (lit ''tertian''),
      kw (lit ''quotidian''),
      kw (lit ''48''),
      kw (lit ''24''),
      kw (lit ''vivax''),
      kw (lit ''ovale''),
      kw (lit ''malariae''),
      kw (lit ''knowlesi'') ]"

text \<open>The string \<open>"Schuffner's dots"\<close>.\<close>

definition schuffnersDots :: string where
  "schuffnersDots = ''Schuffner'' @ [CHR 0x27] @ ''s dots''"

text \<open>The loop over the patterns: the first pattern that matches decides the result.\<close>

fun keywordAnchor :: "rx list list \<Rightarrow> string \<Rightarrow> string option" where
  "keywordAnchor [] s = None"
| "keywordAnchor (re # res) s =
     (case searchRx re None s of
        Some w \<Rightarrow>
          Some (if testRx (lit ''Schuffner'') w \<and> testRx (lit ''dot'' @ [Opt CHR ''s'']) s
                then schuffnersDots else w)
      | None \<Rightarrow> keywordAnchor res s)"

definition pickAnchorWords :: "string \<Rightarrow> int \<Rightarrow> string" where
  "pickAnchorWords content maxWords =
     (let s = trim content in
      case keywordAnchor patterns s of
        Some a \<Rightarrow> a
      | None \<Rightarrow>
          (let words = filter (\<lambda>w. w \<noteq> []) (map stripEdges (splitWs s)) in
           if words = [] then s else joinWith '' '' (slice0 words maxWords)))"

section \<open>Global regular-expression scans\<close>

text \<open>
  \<open>text.replace(re, f)\<close> and \<open>text.matchAll(re)\<close> with a global pattern find the matches
  from left to right, each search starting where the previous match ended, before any
  replacement is made. A scan cuts the text into the characters outside every match and
  the matches, each with its whole text (the callback's \<open>full\<close>) and its groups.
  A matcher gives the groups and the text after the match. None of the patterns below
  matches the empty string; the test on the lengths only makes the recursion total.
\<close>

datatype 'a piece = Lit char | Hit string 'a

function scan :: "(string \<Rightarrow> ('a \<times> string) option) \<Rightarrow> string \<Rightarrow> 'a piece list" where
  "scan m [] = []"
| "scan m (c # cs) =
     (case m (c # cs) of
        None \<Rightarrow> Lit c # scan m cs
      | Some (g, rest) \<Rightarrow>
          if length rest < length (c # cs)
          then Hit (take (length (c # cs) - length rest) (c # cs)) g # scan m rest
          else Lit c # scan m cs)"
  by pat_completeness auto
termination
  by (relation "measure (\<lambda>(m, s). length s)") auto

text \<open>The lazy \<open>([\s\S]*?)\}\}\<close>: the text up to the first \<open>}}\<close>, and the text after it.\<close>

fun findClose :: "string \<Rightarrow> (string \<times> string) option" where
  "findClose (a # b # r) =
     (if a = CHR ''}'' \<and> b = CHR ''}'' then Some ([], r)
      else map_option (\<lambda>(i, r'). (a # i, r')) (findClose (b # r)))"
| "findClose r = None"

text \<open>
  The cloze opener. \<open>opener False\<close> is \<open>/\{\{c(\d+)::/\<close>, the opener of
  \<open>enforceClozeWordLimit\<close>; \<open>opener True\<close> is \<open>/\{\{\s*c(\d+)\s*::/\<close>, the opener of
  \<open>renumberClozesPerCard\<close> and \<open>capClozesToInput\<close>. The result is the index (group 1)
  and the text after the opener. The greedy runs never need backtracking: a run ends at a
  character of another class than the one the pattern wants next.
\<close>

definition skipWs :: "bool \<Rightarrow> string \<Rightarrow> string" where
  "skipWs loose s = (if loose then dropWhile isSpace s else s)"

definition opener :: "bool \<Rightarrow> string \<Rightarrow> (string \<times> string) option" where
  "opener loose s =
     (case s of
        a # b # r \<Rightarrow>
          if a = CHR ''{'' \<and> b = CHR ''{'' then
            (case skipWs loose r of
               c # r1 \<Rightarrow>
                 if c = CHR ''c'' \<and> takeWhile isDigit r1 \<noteq> [] then
                   (case skipWs loose (dropWhile isDigit r1) of
                      p # q # r2 \<Rightarrow>
                        if p = CHR '':'' \<and> q = CHR '':'' then Some (takeWhile isDigit r1, r2)
                        else None
                    | _ \<Rightarrow> None)
                 else None
             | [] \<Rightarrow> None)
          else None
      | _ \<Rightarrow> None)"

text \<open>The whole span: \<open>/\{\{c(\d+)::([\s\S]*?)\}\}/\<close> and
  \<open>/\{\{\s*c(\d+)\s*::([\s\S]*?)\}\}/\<close>; the groups are the index and the inner text.\<close>

definition span :: "bool \<Rightarrow> string \<Rightarrow> ((string \<times> string) \<times> string) option" where
  "span loose s =
     (case opener loose s of
        None \<Rightarrow> None
      | Some (n, r) \<Rightarrow>
          (case findClose r of None \<Rightarrow> None | Some (inner, rest) \<Rightarrow> Some ((n, inner), rest)))"

section \<open>enforceClozeWordLimit\<close>

definition limitSpan :: "int \<Rightarrow> (string \<times> string) piece \<Rightarrow> string" where
  "limitSpan maxWords p =
     (case p of
        Lit c \<Rightarrow> [c]
      | Hit full (n, inner) \<Rightarrow>
          (let content = trim inner; words = tokens content in
           if int (length words) \<le> maxWords then full
           else ''{{c'' @ n @ ''::'' @ pickAnchorWords content maxWords @ ''}}''))"

definition enforceClozeWordLimit :: "string \<Rightarrow> int \<Rightarrow> string" where
  "enforceClozeWordLimit text maxWords =
     (if text = [] then text else concat (map (limitSpan maxWords) (scan (span False) text)))"

section \<open>Splitting and joining by the delimiter\<close>

text \<open>\<open>String(delimiter || "===CARD===")\<close>: the empty delimiter is replaced by the default.\<close>

definition delimOf :: "string \<Rightarrow> string" where
  "delimOf delimiter = (if delimiter = [] then ''===CARD==='' else delimiter)"

text \<open>
  \<open>s.split(d)\<close> for a string \<open>d\<close>: the text is cut at each occurrence of \<open>d\<close>, found from
  left to right without overlap; the empty text gives \<open>[""]\<close>. With the empty separator
  JavaScript returns the single characters; \<open>delimOf\<close> never gives that separator.
\<close>

function splitOn :: "string \<Rightarrow> string \<Rightarrow> string list" where
  "splitOn d s =
     (if d = [] then map (\<lambda>c. [c]) s
      else if s = [] then [[]]
      else if prefix d s then [] # splitOn d (drop (length d) s)
      else (case splitOn d (tl s) of [] \<Rightarrow> [[hd s]] | w # ws \<Rightarrow> (hd s # w) # ws))"
  by pat_completeness auto
termination
  by (relation "measure (\<lambda>(d, s). length s)") (auto simp: Suc_le_eq)

declare splitOn.simps [simp del]

definition splitByDelimiter :: "string \<Rightarrow> string \<Rightarrow> string list" where
  "splitByDelimiter raw delimiter =
     filter (\<lambda>s. length s > 0) (map trim (splitOn (delimOf delimiter) raw))"

definition joinByDelimiter :: "string list \<Rightarrow> string \<Rightarrow> string" where
  "joinByDelimiter parts delimiter = joinWith ([CHR 0x0A] @ delimOf delimiter @ [CHR 0x0A]) parts"

section \<open>renumberClozesPerCard\<close>

text \<open>\<open>String(next)\<close> for the counter \<open>next\<close>: its decimal digits.\<close>

definition digitChar :: "nat \<Rightarrow> char" where
  "digitChar k = ''0123456789'' ! (k mod 10)"

fun showNat :: "nat \<Rightarrow> string" where
  "showNat k = (if k < 10 then [digitChar k] else showNat (k div 10) @ [digitChar k])"

declare showNat.simps [simp del]

text \<open>
  The callback of \<open>renumberClozesPerCard\<close> keeps a \<open>Map\<close> from the old index (a string) to
  the new one and the counter \<open>next\<close>; the pieces of a card are rewritten from left to
  right with that state passed along.
\<close>

fun renumberFrom :: "(string \<rightharpoonup> string) \<Rightarrow> nat \<Rightarrow> string piece list \<Rightarrow> string" where
  "renumberFrom mp nxt [] = []"
| "renumberFrom mp nxt (Lit c # ps) = c # renumberFrom mp nxt ps"
| "renumberFrom mp nxt (Hit full oldNum # ps) =
     (case mp oldNum of
        None \<Rightarrow> ''{{c'' @ showNat nxt @ ''::'' @ renumberFrom (mp(oldNum \<mapsto> showNat nxt)) (nxt + 1) ps
      | Some v \<Rightarrow> ''{{c'' @ v @ ''::'' @ renumberFrom mp nxt ps)"

definition renumberCard :: "string \<Rightarrow> string" where
  "renumberCard cardText = renumberFrom Map.empty 1 (scan (opener True) cardText)"

definition renumberClozesPerCard :: "string \<Rightarrow> string \<Rightarrow> string" where
  "renumberClozesPerCard text delimiter =
     (let d = delimOf delimiter; cards = splitOn d text
      in joinWith d (map renumberCard cards))"

section \<open>capClozesToInput\<close>

text \<open>The indices of the openers of a card, in order:
  \<open>Array.from(inCard.matchAll(...)).map(m => String(m[1]))\<close>.\<close>

fun hits :: "'a piece list \<Rightarrow> 'a list" where
  "hits [] = []"
| "hits (Lit c # ps) = hits ps"
| "hits (Hit full g # ps) = g # hits ps"

definition openerIndices :: "string \<Rightarrow> string list" where
  "openerIndices cardText = hits (scan (opener True) cardText)"

definition capSpan :: "string list \<Rightarrow> (string \<times> string) piece \<Rightarrow> string" where
  "capSpan allowed p =
     (case p of
        Lit c \<Rightarrow> [c]
      | Hit full (n, inner) \<Rightarrow> if n \<in> set allowed then full else trim inner)"

definition capCard :: "string \<Rightarrow> string \<Rightarrow> string" where
  "capCard inCard outCard =
     (let allowed = openerIndices inCard in
      if length (remdups allowed) > 0
      then concat (map (capSpan allowed) (scan (span True) outCard))
      else outCard)"

text \<open>\<open>inCards[i] ?? ""\<close>.\<close>

definition cardAt :: "string list \<Rightarrow> nat \<Rightarrow> string" where
  "cardAt inCards i = (if i < length inCards then inCards ! i else [])"

definition capCards :: "string \<Rightarrow> string \<Rightarrow> string \<Rightarrow> string list" where
  "capCards outText inText delimiter =
     (let d = delimOf delimiter; outCards = splitOn d outText; inCards = splitOn d inText
      in map (\<lambda>(i, outCard). capCard (cardAt inCards i) outCard) (enumerate 0 outCards))"

definition capClozesToInput :: "string \<Rightarrow> string \<Rightarrow> string \<Rightarrow> string" where
  "capClozesToInput outText inText delimiter =
     joinWith (delimOf delimiter) (capCards outText inText delimiter)"

section \<open>Auxiliary notions for the proofs\<close>

text \<open>Whether a text contains the closing marker \<open>}}\<close>.\<close>

fun hasClose :: "string \<Rightarrow> bool" where
  "hasClose (a # b # r) = ((a = CHR ''}'' \<and> b = CHR ''}'') \<or> hasClose (b # r))"
| "hasClose [a] = False"
| "hasClose [] = False"

text \<open>The text of a piece and of a list of pieces.\<close>

fun raw :: "'a piece \<Rightarrow> string" where
  "raw (Lit c) = [c]"
| "raw (Hit full g) = full"

definition render :: "'a piece list \<Rightarrow> string" where
  "render ps = concat (map raw ps)"

text \<open>The characters outside the matches.\<close>

fun lits :: "'a piece list \<Rightarrow> string" where
  "lits [] = []"
| "lits (Lit c # ps) = c # lits ps"
| "lits (Hit full g # ps) = lits ps"

text \<open>Two lists of pieces of the same shape: the same characters outside the matches, and
  matches at the same places.\<close>

fun samePiece :: "'a piece \<Rightarrow> 'b piece \<Rightarrow> bool" where
  "samePiece (Lit a) (Lit b) = (a = b)"
| "samePiece (Hit f g) (Hit f' g') = True"
| "samePiece (Lit a) (Hit f' g') = False"
| "samePiece (Hit f g) (Lit b) = False"

definition sameShape :: "'a piece list \<Rightarrow> 'b piece list \<Rightarrow> bool" where
  "sameShape qs ps = list_all2 samePiece qs ps"

text \<open>The pieces of a card as \<open>renumberClozesPerCard\<close> writes them: each opener becomes
  \<open>{{c<new>::\<close>, with the state of \<open>renumberFrom\<close>.\<close>

fun relabel :: "(string \<rightharpoonup> string) \<Rightarrow> nat \<Rightarrow> string piece list \<Rightarrow> string piece list" where
  "relabel mp nxt [] = []"
| "relabel mp nxt (Lit c # ps) = Lit c # relabel mp nxt ps"
| "relabel mp nxt (Hit full oldNum # ps) =
     (case mp oldNum of
        None \<Rightarrow> Hit (''{{c'' @ showNat nxt @ ''::'') (showNat nxt)
                 # relabel (mp(oldNum \<mapsto> showNat nxt)) (nxt + 1) ps
      | Some v \<Rightarrow> Hit (''{{c'' @ v @ ''::'') v # relabel mp nxt ps)"

text \<open>Reading a decimal numeral back.\<close>

definition digitVal :: "char \<Rightarrow> nat" where
  "digitVal c = length (takeWhile (\<lambda>x. x \<noteq> c) ''0123456789'')"

definition readNat :: "string \<Rightarrow> nat" where
  "readNat s = foldl (\<lambda>a c. 10 * a + digitVal c) 0 s"

text \<open>The characters an opener is written with.\<close>

definition isOpenerChar :: "char \<Rightarrow> bool" where
  "isOpenerChar c = (c = CHR ''{'' \<or> c = CHR ''c'' \<or> c = CHR '':'' \<or> isDigit c)"

text \<open>\<open>noDelim d x\<close>: the delimiter does not occur in \<open>x\<close>. \<open>delimLast d x\<close>: in \<open>x\<close>
  followed by the delimiter, the delimiter occurs first at the end of \<open>x\<close>.\<close>

definition noDelim :: "string \<Rightarrow> string \<Rightarrow> bool" where
  "noDelim d x = (\<forall>b. suffix b x \<longrightarrow> \<not> prefix d b)"

definition delimLast :: "string \<Rightarrow> string \<Rightarrow> bool" where
  "delimLast d x = (\<forall>b. suffix b x \<and> b \<noteq> [] \<longrightarrow> \<not> prefix d (b @ d))"

fun goodCards :: "string \<Rightarrow> string list \<Rightarrow> bool" where
  "goodCards d [] = False"
| "goodCards d [x] = noDelim d x"
| "goodCards d (x # y # ys) = (delimLast d x \<and> goodCards d (y # ys))"

text \<open>An opener as \<open>renumberClozesPerCard\<close> writes it.\<close>

definition normalHit :: "string piece \<Rightarrow> bool" where
  "normalHit p = (case p of Lit c \<Rightarrow> True
     | Hit f v \<Rightarrow> f = ''{{c'' @ v @ ''::'' \<and> v \<noteq> [] \<and> (\<forall>c\<in>set v. isDigit c))"

text \<open>The number an original index gets: one more than the number of distinct indices
  before its first occurrence.\<close>

definition rank :: "string list \<Rightarrow> string \<Rightarrow> nat" where
  "rank xs x = Suc (card (set (takeWhile (\<lambda>y. y \<noteq> x) xs)))"

text \<open>The characters of the keyword patterns: word characters and the apostrophe.\<close>

definition isKwChar :: "char \<Rightarrow> bool" where
  "isKwChar c = (isWordChar c \<or> c = CHR 0x27)"

fun rxChars :: "rx list \<Rightarrow> char list" where
  "rxChars [] = []"
| "rxChars (Req c # ps) = c # rxChars ps"
| "rxChars (Opt c # ps) = c # rxChars ps"
| "rxChars (WB # ps) = rxChars ps"

fun hasReq :: "rx list \<Rightarrow> bool" where
  "hasReq [] = False"
| "hasReq (Req c # ps) = True"
| "hasReq (Opt c # ps) = hasReq ps"
| "hasReq (WB # ps) = hasReq ps"

text \<open>A pattern that matches no empty text and only keyword characters.\<close>

definition goodRx :: "rx list \<Rightarrow> bool" where
  "goodRx ps = (hasReq ps \<and> (\<forall>c\<in>set (rxChars ps). isKwChar c))"

text \<open>The word limit as a property of a span content: at most \<open>maxWords\<close> tokens, or no
  word character at all.\<close>

definition withinLimit :: "int \<Rightarrow> string \<Rightarrow> bool" where
  "withinLimit maxWords inner =
     (int (length (tokens inner)) \<le> maxWords \<or> (\<forall>c\<in>set inner. \<not> isWordChar c))"

text \<open>The pieces of a text as \<open>enforceClozeWordLimit\<close> writes them.\<close>

fun limited :: "int \<Rightarrow> (string \<times> string) piece \<Rightarrow> (string \<times> string) piece" where
  "limited maxWords (Lit c) = Lit c"
| "limited maxWords (Hit full g) = Hit (limitSpan maxWords (Hit full g)) g"

text \<open>The character before a position: the last character of the text read so far, or the
  character before that text when nothing was read.\<close>

definition prevOf :: "char option \<Rightarrow> string \<Rightarrow> char option" where
  "prevOf prev a = (if a = [] then prev else Some (last a))"

text \<open>The texts a pattern of literal and optional characters can match, as written in the
  pattern.\<close>

fun rxForms :: "rx list \<Rightarrow> string list" where
  "rxForms [] = [[]]"
| "rxForms (Req c # ps) = map (\<lambda>w. c # w) (rxForms ps)"
| "rxForms (Opt c # ps) = map (\<lambda>w. c # w) (rxForms ps) @ rxForms ps"
| "rxForms (WB # ps) = rxForms ps"

text \<open>The keywords of \<open>pickAnchorWords\<close> in lower case, each pattern with its variants.\<close>

definition keywordForms :: "string list" where
  "keywordForms =
     [''hypnozoite'', ''schuffner'' @ [CHR 0x27] @ ''s'', ''schuffners'', ''dots'', ''dot'',
      ''merozoites'', ''merozoite'', ''schizonts'', ''schizont'', ''tertian'', ''quotidian'',
      ''48'', ''24'', ''vivax'', ''ovale'', ''malariae'', ''knowlesi'']"

section \<open>Basic facts about scans, closers and openers\<close>

lemma scan_None: "m (c # cs) = None \<Longrightarrow> scan m (c # cs) = Lit c # scan m cs"
  by simp

lemma scan_Some:
  "m (c # cs) = Some (g, rest) \<Longrightarrow> length rest < length (c # cs) \<Longrightarrow>
   scan m (c # cs) = Hit (take (length (c # cs) - length rest) (c # cs)) g # scan m rest"
  by simp

lemma scan_append_Some:
  assumes "m (f @ rest) = Some (g, rest)" "f \<noteq> []"
  shows "scan m (f @ rest) = Hit f g # scan m rest"
proof -
  obtain c cs where e: "f @ rest = c # cs" using assms(2) by (cases f) auto
  have "length rest < length (c # cs)" using assms(2) e [symmetric] by (cases f) auto
  moreover have "take (length (c # cs) - length rest) (c # cs) = f"
    using e [symmetric] by simp
  ultimately show ?thesis using assms(1) e by (simp del: scan.simps add: scan_Some)
qed

lemma scan_Nil_iff: "scan m s = [] \<longleftrightarrow> s = []"
  by (cases s) (auto split: option.splits)

lemma scan_Lit_inv:
  "scan m s = Lit c # ps \<Longrightarrow> \<exists>cs. s = c # cs \<and> ps = scan m cs"
  by (cases s) (auto split: option.splits if_splits)

lemma hasClose_append:
  "hasClose (x @ y) \<longleftrightarrow>
     hasClose x \<or> hasClose y \<or> (x \<noteq> [] \<and> last x = CHR ''}'' \<and> y \<noteq> [] \<and> hd y = CHR ''}'')"
proof (induction x rule: hasClose.induct)
  case (1 a b r)
  then show ?case by auto
next
  case (2 a)
  then show ?case by (cases y) auto
next
  case 3
  then show ?case by simp
qed

lemma findClose_None_iff: "findClose r = None \<longleftrightarrow> \<not> hasClose r"
  by (induction r rule: findClose.induct) auto

lemma findClose_Some:
  "findClose r = Some (i, rest) \<Longrightarrow> r = i @ ''}}'' @ rest \<and> \<not> hasClose (i @ ''}'')"
proof (induction r arbitrary: i rule: findClose.induct)
  case (1 a b r)
  show ?case
  proof (cases "a = CHR ''}'' \<and> b = CHR ''}''")
    case True
    then show ?thesis using 1 by auto
  next
    case False
    then obtain i' where f: "findClose (b # r) = Some (i', rest)" and i: "i = a # i'"
      using 1(2) by auto
    from 1(1) [OF False f] have r: "b # r = i' @ ''}}'' @ rest" and h: "\<not> hasClose (i' @ ''}'')"
      by auto
    have "\<not> hasClose (a # i' @ ''}'')"
    proof (cases i')
      case Nil
      then show ?thesis using r False by auto
    next
      case (Cons x xs)
      then show ?thesis using h r False by auto
    qed
    then show ?thesis using r i by simp
  qed
qed auto

lemma findClose_intro:
  "\<not> hasClose (x @ ''}'') \<Longrightarrow> findClose (x @ ''}}'' @ e) = Some (x, e)"
proof (induction x)
  case Nil
  then show ?case by simp
next
  case (Cons a x)
  then have h: "\<not> hasClose (x @ ''}'')" by (cases x) auto
  show ?case
  proof (cases x)
    case Nil
    then show ?thesis using Cons.prems by auto
  next
    case (Cons b y)
    then have "\<not> (a = CHR ''}'' \<and> b = CHR ''}'')" using Cons.prems by auto
    then show ?thesis using Cons.IH [OF h] Cons by auto
  qed
qed

lemma isDigit_not_space: "isDigit c \<Longrightarrow> \<not> isSpace c"
  by (auto simp: isDigit_def isSpace_def)

lemma skipWs_no_space: "\<not> isSpace c \<Longrightarrow> skipWs l (c # r) = c # r"
  by (simp add: skipWs_def)

lemma skipWs_spaces: "\<forall>x\<in>set w. isSpace x \<Longrightarrow> l \<or> w = [] \<Longrightarrow> skipWs l (w @ r) = skipWs l r"
  by (auto simp: skipWs_def dropWhile_append)

lemma skipWs_split: "\<exists>w. s = w @ skipWs l s \<and> (\<forall>x\<in>set w. isSpace x) \<and> (l \<or> w = [])"
proof (cases l)
  case True
  have "s = takeWhile isSpace s @ dropWhile isSpace s" by simp
  moreover have "\<forall>x\<in>set (takeWhile isSpace s). isSpace x" by (auto dest: set_takeWhileD)
  ultimately show ?thesis using True unfolding skipWs_def by (metis (full_types))
next
  case False
  then show ?thesis by (simp add: skipWs_def)
qed

lemma opener_intro:
  assumes "\<forall>x\<in>set w1. isSpace x" "\<forall>x\<in>set w2. isSpace x" "l \<or> (w1 = [] \<and> w2 = [])"
    "n \<noteq> []" "\<forall>x\<in>set n. isDigit x"
  shows "opener l (''{{'' @ w1 @ ''c'' @ n @ w2 @ ''::'' @ r) = Some (n, r)"
proof -
  have c: "\<not> isSpace CHR ''c''" "\<not> isSpace CHR '':''" "\<not> isDigit CHR '':''"
    by (simp_all add: isSpace_def isDigit_def)
  have 1: "skipWs l (w1 @ ''c'' @ n @ w2 @ ''::'' @ r) = ''c'' @ n @ w2 @ ''::'' @ r"
    using assms(1,3) c by (auto simp: skipWs_def dropWhile_append)
  have nd: "\<not> isDigit (hd (w2 @ ''::'' @ r))"
    using assms(2) c by (cases w2) (auto dest: isDigit_not_space)
  have 2: "takeWhile isDigit (n @ w2 @ ''::'' @ r) = n"
    using assms(5) nd by (cases "w2 @ ''::'' @ r") (auto simp: takeWhile_append2 takeWhile_eq_Nil_iff)
  have 3: "dropWhile isDigit (n @ w2 @ ''::'' @ r) = w2 @ ''::'' @ r"
    using assms(5) nd by (cases "w2 @ ''::'' @ r") (auto simp: dropWhile_append dropWhile_eq_self_iff)
  have 4: "skipWs l (w2 @ ''::'' @ r) = ''::'' @ r"
    using assms(2,3) c by (auto simp: skipWs_def dropWhile_append)
  show ?thesis
    using 1 2 3 4 assms(4) by (simp add: opener_def)
qed

lemma opener_elim:
  assumes "opener l s = Some (n, r)"
  shows "\<exists>w1 w2. s = ''{{'' @ w1 @ ''c'' @ n @ w2 @ ''::'' @ r \<and> (\<forall>x\<in>set w1. isSpace x)
           \<and> (\<forall>x\<in>set w2. isSpace x) \<and> (l \<or> (w1 = [] \<and> w2 = [])) \<and> n \<noteq> [] \<and> (\<forall>x\<in>set n. isDigit x)"
proof -
  from assms obtain r0 where s: "s = ''{{'' @ r0"
    by (auto simp: opener_def split: list.splits if_splits)
  obtain w1 where w1: "r0 = w1 @ skipWs l r0" "\<forall>x\<in>set w1. isSpace x" "l \<or> w1 = []"
    using skipWs_split by blast
  from assms s obtain r1 where r1: "skipWs l r0 = ''c'' @ r1" "takeWhile isDigit r1 \<noteq> []"
    by (auto simp: opener_def split: list.splits if_splits)
  obtain w2 where w2: "dropWhile isDigit r1 = w2 @ skipWs l (dropWhile isDigit r1)"
      "\<forall>x\<in>set w2. isSpace x" "l \<or> w2 = []"
    using skipWs_split by blast
  from assms s r1 have e: "skipWs l (dropWhile isDigit r1) = ''::'' @ r" "n = takeWhile isDigit r1"
    by (auto simp: opener_def split: list.splits if_splits)
  have "r1 = n @ dropWhile isDigit r1" using e(2) by simp
  then have "r1 = n @ w2 @ ''::'' @ r" using w2(1) e(1) by metis
  then have "s = ''{{'' @ w1 @ ''c'' @ n @ w2 @ ''::'' @ r"
    using s w1(1) r1(1) by metis
  moreover have "\<forall>x\<in>set n. isDigit x" using e(2) by (auto dest: set_takeWhileD)
  ultimately show ?thesis using w1 w2 r1(2) e(2) by blast
qed

lemma opener_shorter: "opener l s = Some (n, r) \<Longrightarrow> length r < length s"
  by (drule opener_elim) auto

section \<open>Splitting and joining\<close>

lemma splitOn_not_Nil: "d \<noteq> [] \<Longrightarrow> splitOn d s \<noteq> []"
  by (subst splitOn.simps) (auto split: list.splits)

lemma joinWith_Cons: "xs \<noteq> [] \<Longrightarrow> joinWith d (x # xs) = x @ d @ joinWith d xs"
  by (cases xs) auto

lemma joinWith_Cons_Cons: "joinWith d ((c # w) # ws) = c # joinWith d (w # ws)"
  by (cases ws) auto

lemma join_splitOn: "d \<noteq> [] \<Longrightarrow> joinWith d (splitOn d s) = s"
proof (induction d s rule: splitOn.induct)
  case (1 d s)
  show ?case
  proof (cases "s = []")
    case True
    then show ?thesis using 1(3) by (subst splitOn.simps) simp
  next
    case ne: False
    show ?thesis
    proof (cases "prefix d s")
      case True
      then obtain r where r: "s = d @ r" by (auto simp: prefix_def)
      have "joinWith d (splitOn d (drop (length d) s)) = drop (length d) s"
        using 1(1) 1(3) ne True by simp
      then show ?thesis
        using 1(3) ne True r
        by (subst splitOn.simps) (simp add: joinWith_Cons splitOn_not_Nil)
    next
      case False
      obtain c cs where s: "s = c # cs" using ne by (cases s) auto
      have ih: "joinWith d (splitOn d cs) = cs" using 1(2) 1(3) ne False s by simp
      obtain w ws where w: "splitOn d cs = w # ws"
        using splitOn_not_Nil [OF 1(3), of cs] by (cases "splitOn d cs") auto
      show ?thesis
        using 1(3) ne False s w ih
        by (subst splitOn.simps) (simp add: joinWith_Cons_Cons)
    qed
  qed
qed

lemma delimOf_not_Nil: "delimOf d \<noteq> []"
  by (simp add: delimOf_def)

section \<open>Decimal numerals\<close>

lemma digitChar_isDigit: "isDigit (digitChar k)"
proof -
  define d where "d = k mod 10"
  have "d < 10" by (simp add: d_def)
  then have "d = 0 \<or> d = 1 \<or> d = 2 \<or> d = 3 \<or> d = 4 \<or> d = 5 \<or> d = 6 \<or> d = 7 \<or> d = 8 \<or> d = 9"
    by arith
  then show ?thesis unfolding digitChar_def isDigit_def d_def [symmetric] by auto
qed

lemma digitVal_digitChar: "digitVal (digitChar k) = k mod 10"
proof -
  define d where "d = k mod 10"
  have "d < 10" by (simp add: d_def)
  then have "d = 0 \<or> d = 1 \<or> d = 2 \<or> d = 3 \<or> d = 4 \<or> d = 5 \<or> d = 6 \<or> d = 7 \<or> d = 8 \<or> d = 9"
    by arith
  then show ?thesis unfolding digitChar_def digitVal_def d_def [symmetric] by auto
qed

lemma showNat_digits: "showNat k \<noteq> [] \<and> (\<forall>c\<in>set (showNat k). isDigit c)"
proof (induction k rule: showNat.induct)
  case (1 k)
  show ?case
    using 1 by (subst showNat.simps, subst (2) showNat.simps) (auto simp: digitChar_isDigit)
qed

lemma readNat_snoc: "readNat (s @ [c]) = 10 * readNat s + digitVal c"
  by (simp add: readNat_def)

lemma readNat_showNat: "readNat (showNat k) = k"
proof (induction k rule: showNat.induct)
  case (1 k)
  show ?case
  proof (cases "k < 10")
    case True
    then show ?thesis
      by (subst showNat.simps) (simp add: readNat_def digitVal_digitChar)
  next
    case False
    then show ?thesis
      using 1 by (subst showNat.simps) (simp add: readNat_snoc digitVal_digitChar)
  qed
qed

lemma showNat_inj: "showNat j = showNat k \<Longrightarrow> j = k"
  by (metis readNat_showNat)

lemma showNat_notin: "showNat k \<notin> showNat ` {1..<k}"
  by (auto dest: showNat_inj)

section \<open>Scanning a rewritten text\<close>

lemma render_Nil [simp]: "render [] = []"
  by (simp add: render_def)

lemma render_Cons [simp]: "render (p # ps) = raw p @ render ps"
  by (simp add: render_def)

lemma render_append [simp]: "render (ps @ qs) = render ps @ render qs"
  by (simp add: render_def)

lemma render_map_Lit [simp]: "render (map Lit s) = s"
  by (induction s) auto

lemma sameShape_Nil [simp]: "sameShape [] ps \<longleftrightarrow> ps = []" "sameShape qs [] \<longleftrightarrow> qs = []"
  by (auto simp: sameShape_def)

lemma sameShape_Cons [simp]: "sameShape (q # qs) (p # ps) \<longleftrightarrow> samePiece q p \<and> sameShape qs ps"
  by (simp add: sameShape_def)

lemma sameShape_Lit_left:
  "sameShape (Lit c # qs) ps \<Longrightarrow> \<exists>ps'. ps = Lit c # ps' \<and> sameShape qs ps'"
  by (cases ps; cases "hd ps") auto

lemma sameShape_Hit_left:
  "sameShape (Hit f g # qs) ps \<Longrightarrow> \<exists>f' g' ps'. ps = Hit f' g' # ps' \<and> sameShape qs ps'"
  by (cases ps; cases "hd ps") auto

lemma sameShape_Lit_right:
  "sameShape qs (Lit c # ps) \<Longrightarrow> \<exists>qs'. qs = Lit c # qs' \<and> sameShape qs' ps"
  by (cases qs; cases "hd qs") auto

lemma sameShape_Hit_right:
  "sameShape qs (Hit f g # ps) \<Longrightarrow> \<exists>f' g' qs'. qs = Hit f' g' # qs' \<and> sameShape qs' ps"
  by (cases qs; cases "hd qs") auto

lemma sameShape_lits: "sameShape qs ps \<Longrightarrow> lits qs = lits ps"
proof (induction qs arbitrary: ps)
  case Nil
  then show ?case by simp
next
  case (Cons q qs)
  then show ?case
    by (cases q) (auto dest!: sameShape_Lit_left sameShape_Hit_left)
qed

lemma sameShape_length_hits: "sameShape qs ps \<Longrightarrow> length (hits qs) = length (hits ps)"
proof (induction qs arbitrary: ps)
  case Nil
  then show ?case by simp
next
  case (Cons q qs)
  then show ?case
    by (cases q) (auto dest!: sameShape_Lit_left sameShape_Hit_left)
qed

text \<open>A prefix without \<open>{\<close> of a rendering, whose matches all start with \<open>{\<close>, is a
  prefix of the scanned text.\<close>

lemma no_brace_prefix:
  assumes "sameShape qs (scan m x)"
    and "\<forall>f g. Hit f g \<in> set qs \<longrightarrow> f \<noteq> [] \<and> hd f = CHR ''{''"
    and "render qs = p @ y" and "CHR ''{'' \<notin> set p"
  shows "\<exists>x' qs'. x = p @ x' \<and> qs = map Lit p @ qs' \<and> sameShape qs' (scan m x') \<and> render qs' = y"
  using assms
proof (induction p arbitrary: x qs)
  case Nil
  then show ?case by auto
next
  case (Cons a p)
  show ?case
  proof (cases qs)
    case Nil
    then show ?thesis using Cons.prems by simp
  next
    case qs: (Cons q qs1)
    show ?thesis
    proof (cases q)
      case (Lit c)
      then have c: "c = a" and r: "render qs1 = p @ y" using Cons.prems(3) qs by auto
      from Cons.prems(1) qs Lit obtain ps' where ps: "scan m x = Lit c # ps'" "sameShape qs1 ps'"
        by (auto dest: sameShape_Lit_left)
      then obtain cs where x: "x = c # cs" "ps' = scan m cs"
        by (auto dest: scan_Lit_inv)
      have "\<exists>x' qs'. cs = p @ x' \<and> qs1 = map Lit p @ qs' \<and> sameShape qs' (scan m x') \<and> render qs' = y"
        using Cons.IH [of qs1 cs] ps(2) x(2) r Cons.prems(2,4) qs by auto
      then show ?thesis using x(1) c qs Lit by auto
    next
      case (Hit f g)
      then have "f \<noteq> [] \<and> hd f = CHR ''{''" using Cons.prems(2) qs by auto
      then have "hd (render qs) = CHR ''{''" using qs Hit by (cases f) auto
      then show ?thesis using Cons.prems(3,4) by auto
    qed
  qed
qed

lemma renumberFrom_render: "renumberFrom mp k ps = render (relabel mp k ps)"
proof (induction ps arbitrary: mp k)
  case Nil
  then show ?case by simp
next
  case (Cons p ps)
  show ?case
  proof (cases p)
    case (Lit c)
    then show ?thesis using Cons [of mp k] by simp
  next
    case (Hit f old)
    show ?thesis
    proof (cases "mp old")
      case None
      then show ?thesis using Hit Cons [of "mp(old \<mapsto> showNat k)" "k + 1"]
        by (simp del: fun_upd_apply)
    next
      case (Some v)
      then show ?thesis using Hit Cons [of mp k] by simp
    qed
  qed
qed

lemma sameShape_relabel: "sameShape (relabel mp k ps) ps"
proof (induction ps arbitrary: mp k)
  case Nil
  then show ?case by simp
next
  case (Cons p ps)
  show ?case
  proof (cases p)
    case (Lit c)
    then show ?thesis using Cons [of mp k] by simp
  next
    case (Hit f old)
    show ?thesis
    proof (cases "mp old")
      case None
      then show ?thesis using Hit Cons [of "mp(old \<mapsto> showNat k)" "k + 1"]
        by (simp del: fun_upd_apply)
    next
      case (Some v)
      then show ?thesis using Hit Cons [of mp k] by simp
    qed
  qed
qed

lemma relabel_normal:
  "\<forall>v\<in>ran mp. v \<noteq> [] \<and> (\<forall>c\<in>set v. isDigit c) \<Longrightarrow> \<forall>p\<in>set (relabel mp k ps). normalHit p"
proof (induction ps arbitrary: mp k)
  case Nil
  then show ?case by simp
next
  case (Cons p ps)
  show ?case
  proof (cases p)
    case (Lit c)
    then show ?thesis using Cons.IH [of mp k, OF Cons.prems] by (simp add: normalHit_def)
  next
    case (Hit full oldNum)
    show ?thesis
    proof (cases "mp oldNum")
      case None
      have "\<forall>v\<in>ran (mp(oldNum \<mapsto> showNat k)). v \<noteq> [] \<and> (\<forall>c\<in>set v. isDigit c)"
        using Cons.prems None showNat_digits by (auto simp: ran_def split: if_splits)
      from Cons.IH [of "mp(oldNum \<mapsto> showNat k)" "k + 1", OF this] show ?thesis
        using Hit None showNat_digits by (simp add: normalHit_def del: fun_upd_apply)
    next
      case (Some v)
      then have "v \<in> ran mp" by (auto simp: ran_def)
      then show ?thesis using Cons.IH [of mp k, OF Cons.prems] Cons.prems Hit Some
        by (simp add: normalHit_def)
    qed
  qed
qed

lemma brace_classes: "\<not> isSpace CHR ''{''" "\<not> isDigit CHR ''{''"
  by (simp_all add: isSpace_def isDigit_def)

lemma opener_Lit_stable:
  assumes n: "opener True (c # cs) = None"
    and s: "sameShape qs (scan (opener True) cs)"
    and h: "\<forall>p\<in>set qs. normalHit p"
  shows "opener True (c # render qs) = None"
proof (rule ccontr)
  assume "opener True (c # render qs) \<noteq> None"
  then obtain v r where "opener True (c # render qs) = Some (v, r)" by auto
  from opener_elim [OF this] obtain w1 w2 where
    e: "c # render qs = ''{{'' @ w1 @ ''c'' @ v @ w2 @ ''::'' @ r"
    and w: "\<forall>x\<in>set w1. isSpace x" "\<forall>x\<in>set w2. isSpace x" "v \<noteq> []" "\<forall>x\<in>set v. isDigit x"
    by blast
  define p where "p = w1 @ ''c'' @ v @ w2 @ ''::''"
  have c: "c = CHR ''{''" and r: "render qs = CHR ''{'' # p @ r" using e by (simp_all add: p_def)
  have nb: "CHR ''{'' \<notin> set p"
    using w brace_classes by (auto simp: p_def)
  have pne: "p \<noteq> []" by (simp add: p_def)
  have hh: "\<forall>f g. Hit f g \<in> set qs \<longrightarrow> f \<noteq> [] \<and> hd f = CHR ''{''"
  proof (intro allI impI)
    fix f g assume "Hit f g \<in> set qs"
    then have "normalHit (Hit f g)" using h by blast
    then show "f \<noteq> [] \<and> hd f = CHR ''{''" by (simp add: normalHit_def)
  qed
  obtain q qs1 where qs: "qs = q # qs1" using r by (cases qs) auto
  have "\<exists>c'. q = Lit c'"
  proof (cases q)
    case (Lit a)
    then show ?thesis by simp
  next
    case (Hit f g)
    then have "normalHit (Hit f g)" using h qs by simp
    then have "f = ''{{c'' @ g @ ''::''" by (simp add: normalHit_def)
    then have "render qs = CHR ''{'' # CHR ''{'' # (''c'' @ g @ ''::'' @ render qs1)"
      using qs Hit by simp
    then have "p @ r = CHR ''{'' # (''c'' @ g @ ''::'' @ render qs1)" using r by simp
    then have "hd p = CHR ''{''" using pne by (cases p) simp_all
    then have "CHR ''{'' \<in> set p" using pne hd_in_set by metis
    then show ?thesis using nb by blast
  qed
  then obtain c' where "q = Lit c'" by blast
  then have q': "qs = Lit CHR ''{'' # qs1" using r qs by simp
  from s q' obtain ps' where ps: "scan (opener True) cs = Lit CHR ''{'' # ps'" "sameShape qs1 ps'"
    using sameShape_Lit_left by blast
  from scan_Lit_inv [OF ps(1)] obtain cs1 where cs: "cs = CHR ''{'' # cs1" "ps' = scan (opener True) cs1"
    by blast
  have s1: "sameShape qs1 (scan (opener True) cs1)" using ps(2) cs(2) by simp
  have r1: "render qs1 = p @ r" using r q' by simp
  have hh1: "\<forall>f g. Hit f g \<in> set qs1 \<longrightarrow> f \<noteq> [] \<and> hd f = CHR ''{''" using hh q' by simp
  from no_brace_prefix [OF s1 hh1 r1 nb]
  obtain x' where "cs1 = p @ x'" by blast
  then have "c # cs = ''{{'' @ w1 @ ''c'' @ v @ w2 @ ''::'' @ x'" using c cs(1) by (simp add: p_def)
  moreover have "opener True (''{{'' @ w1 @ ''c'' @ v @ w2 @ ''::'' @ x') = Some (v, x')"
    using w by (intro opener_intro) auto
  ultimately show False using n by simp
qed

lemma scan_render_openers:
  "sameShape qs (scan (opener True) s) \<Longrightarrow> \<forall>p\<in>set qs. normalHit p \<Longrightarrow>
   scan (opener True) (render qs) = qs"
proof (induction "opener True" s arbitrary: qs rule: scan.induct)
  case 1
  then show ?case by simp
next
  case (2 c cs)
  show ?case
  proof (cases "opener True (c # cs)")
    case None
    then obtain qs' where q: "qs = Lit c # qs'" "sameShape qs' (scan (opener True) cs)"
      using 2(4) by (auto dest: sameShape_Lit_right)
    have "opener True (c # render qs') = None"
      using opener_Lit_stable [OF None q(2)] 2(5) q(1) by simp
    moreover have "scan (opener True) (render qs') = qs'"
      using 2(1) [OF None q(2)] 2(5) q(1) by simp
    ultimately show ?thesis using q(1) by simp
  next
    case (Some a)
    obtain n rest where a: "a = (n, rest)" by (cases a)
    have l: "length rest < length (c # cs)" using Some a opener_shorter by blast
    then obtain f v qs' where q: "qs = Hit f v # qs'" "sameShape qs' (scan (opener True) rest)"
      using 2(4) Some a by (auto dest: sameShape_Hit_right)
    have nh: "f = ''{{c'' @ v @ ''::''" "v \<noteq> []" "\<forall>c\<in>set v. isDigit c"
      using 2(5) q(1) by (auto simp: normalHit_def)
    have ih: "scan (opener True) (render qs') = qs'"
      using 2(2) [OF Some a [symmetric] l q(2)] 2(5) q(1) by simp
    have "opener True (f @ render qs') = Some (v, render qs')"
      using opener_intro [of "[]" "[]" True v "render qs'"] nh by simp
    then have "scan (opener True) (f @ render qs') = Hit f v # scan (opener True) (render qs')"
      using nh(1) by (intro scan_append_Some) auto
    then show ?thesis using q(1) ih by simp
  qed
qed

lemma scan_renumberCard:
  "scan (opener True) (renumberCard c) = relabel Map.empty 1 (scan (opener True) c)"
  unfolding renumberCard_def renumberFrom_render
proof (rule scan_render_openers)
  show "sameShape (relabel Map.empty 1 (scan (opener True) c)) (scan (opener True) c)"
    by (rule sameShape_relabel)
  show "\<forall>p\<in>set (relabel Map.empty 1 (scan (opener True) c)). normalHit p"
    by (rule relabel_normal) simp
qed

section \<open>The numbering of renumberClozesPerCard\<close>

lemma rank_append_mem: "x \<in> set pre \<Longrightarrow> rank (pre @ more) x = rank pre x"
  by (simp add: rank_def takeWhile_append1)

lemma rank_append_new: "x \<notin> set pre \<Longrightarrow> rank (pre @ x # more) x = Suc (card (set pre))"
proof -
  assume "x \<notin> set pre"
  then have "takeWhile (\<lambda>y. y \<noteq> x) (pre @ x # more) = pre"
    by (subst takeWhile_append2) auto
  then show ?thesis by (simp add: rank_def)
qed

lemma hits_relabel:
  assumes "k = Suc (card (set pre))"
    and "\<forall>x. mp x = (if x \<in> set pre then Some (showNat (rank pre x)) else None)"
  shows "hits (relabel mp k ps) = map (\<lambda>x. showNat (rank (pre @ hits ps) x)) (hits ps)"
  using assms
proof (induction ps arbitrary: mp k pre)
  case Nil
  then show ?case by simp
next
  case (Cons p ps)
  show ?case
  proof (cases p)
    case (Lit c)
    then show ?thesis using Cons.IH [OF Cons.prems] by simp
  next
    case (Hit f old)
    let ?pre1 = "pre @ [old]"
    show ?thesis
    proof (cases "old \<in> set pre")
      case True
      then have m: "mp old = Some (showNat (rank pre old))" using Cons.prems(2) by simp
      have k1: "k = Suc (card (set ?pre1))" using Cons.prems(1) True by (simp add: insert_absorb)
      have m1: "\<forall>x. mp x = (if x \<in> set ?pre1 then Some (showNat (rank ?pre1 x)) else None)"
        using Cons.prems(2) True by (auto simp: rank_append_mem)
      have "hits (relabel mp k ps) = map (\<lambda>x. showNat (rank (?pre1 @ hits ps) x)) (hits ps)"
        by (rule Cons.IH [OF k1 m1])
      then show ?thesis using Hit m True by (simp add: rank_append_mem)
    next
      case False
      then have m: "mp old = None" using Cons.prems(2) by simp
      let ?mp1 = "mp(old \<mapsto> showNat k)"
      have k1: "k + 1 = Suc (card (set ?pre1))" using Cons.prems(1) False by simp
      have r: "rank ?pre1 old = k" using rank_append_new [OF False, of "[]"] Cons.prems(1) by simp
      have m1: "\<forall>x. ?mp1 x = (if x \<in> set ?pre1 then Some (showNat (rank ?pre1 x)) else None)"
        using Cons.prems(2) r by (auto simp: rank_append_mem)
      have "hits (relabel ?mp1 (k + 1) ps) = map (\<lambda>x. showNat (rank (?pre1 @ hits ps) x)) (hits ps)"
        by (rule Cons.IH [OF k1 m1])
      moreover have "rank (pre @ old # hits ps) old = k"
        using rank_append_new [OF False] Cons.prems(1) by simp
      ultimately show ?thesis using Hit m by (simp del: fun_upd_apply)
    qed
  qed
qed

lemma set_hits_relabel:
  assumes "1 \<le> k" and "ran mp = showNat ` {1..<k}"
  shows "ran mp \<union> set (hits (relabel mp k ps)) = showNat ` {1..<k + card (set (hits ps) - dom mp)}"
  using assms
proof (induction ps arbitrary: mp k)
  case Nil
  then show ?case by simp
next
  case (Cons p ps)
  show ?case
  proof (cases p)
    case (Lit c)
    then show ?thesis using Cons.IH [OF Cons.prems] by simp
  next
    case (Hit f old)
    show ?thesis
    proof (cases "mp old")
      case None
      let ?mp1 = "mp(old \<mapsto> showNat k)"
      have r1: "ran ?mp1 = showNat ` {1..<k + 1}"
      proof -
        have "ran ?mp1 = insert (showNat k) (ran mp)" using None by simp
        moreover have "{1..<k + 1} = insert k {1..<k}" using Cons.prems(1) by auto
        ultimately show ?thesis using Cons.prems(2) by simp
      qed
      have ih: "ran ?mp1 \<union> set (hits (relabel ?mp1 (k + 1) ps))
                = showNat ` {1..<k + 1 + card (set (hits ps) - dom ?mp1)}"
        by (rule Cons.IH [OF _ r1]) simp
      have "set (hits (p # ps)) - dom mp = insert old (set (hits ps) - dom ?mp1)"
        using None Hit by auto
      moreover have "old \<notin> set (hits ps) - dom ?mp1" by simp
      ultimately have c: "card (set (hits (p # ps)) - dom mp) = Suc (card (set (hits ps) - dom ?mp1))"
        by (simp del: dom_fun_upd hits.simps)
      have "ran mp \<union> set (hits (relabel mp k (p # ps)))
              = ran ?mp1 \<union> set (hits (relabel ?mp1 (k + 1) ps))"
        using Hit None by (simp del: fun_upd_apply)
      then show ?thesis using ih c by (simp del: fun_upd_apply dom_fun_upd hits.simps)
    next
      case (Some v)
      then have v: "v \<in> ran mp" by (auto simp: ran_def)
      have "old \<in> dom mp" using Some by auto
      then have "set (hits (p # ps)) - dom mp = set (hits ps) - dom mp" using Hit by auto
      moreover have "ran mp \<union> set (hits (relabel mp k (p # ps)))
              = ran mp \<union> set (hits (relabel mp k ps))"
        using Hit Some v by auto
      ultimately show ?thesis using Cons.IH [OF Cons.prems] by simp
    qed
  qed
qed

lemma relabel_idem:
  assumes "ran mp \<subseteq> showNat ` {1..<k}" and "dom mp' = showNat ` {1..<k}"
    and "\<forall>v\<in>dom mp'. mp' v = Some v" and "1 \<le> k"
  shows "relabel mp' k (relabel mp k ps) = relabel mp k ps"
  using assms
proof (induction ps arbitrary: mp k mp')
  case Nil
  then show ?case by simp
next
  case (Cons p ps)
  show ?case
  proof (cases p)
    case (Lit c)
    then show ?thesis using Cons.IH [OF Cons.prems] by simp
  next
    case (Hit f old)
    show ?thesis
    proof (cases "mp old")
      case None
      let ?v = "showNat k"
      let ?mp1 = "mp(old \<mapsto> ?v)"
      let ?mp1' = "mp'(?v \<mapsto> ?v)"
      have n': "mp' ?v = None"
        using Cons.prems(2) showNat_notin [of k] by (auto simp: dom_def)
      have e: "{1..<k + 1} = insert k {1..<k}" using Cons.prems(4) by auto
      have "ran ?mp1 = insert ?v (ran mp)" using None by simp
      then have a: "ran ?mp1 \<subseteq> showNat ` {1..<k + 1}"
        using Cons.prems(1) e by auto
      have b: "dom ?mp1' = showNat ` {1..<k + 1}"
        using Cons.prems(2) e by simp
      have c: "\<forall>v\<in>dom ?mp1'. ?mp1' v = Some v" using Cons.prems(3) by auto
      have "relabel ?mp1' (k + 1) (relabel ?mp1 (k + 1) ps) = relabel ?mp1 (k + 1) ps"
        by (rule Cons.IH [OF a b c]) simp
      then show ?thesis using Hit None n' by (simp del: fun_upd_apply)
    next
      case (Some v)
      then have "v \<in> ran mp" by (auto simp: ran_def)
      then have "mp' v = Some v" using Cons.prems by auto
      then show ?thesis using Hit Some Cons.IH [OF Cons.prems] by simp
    qed
  qed
qed

section \<open>Cards and the delimiter\<close>

lemma prefix_append_short: "prefix d (u @ r) \<Longrightarrow> length d \<le> length u \<Longrightarrow> prefix d u"
proof -
  assume p: "prefix d (u @ r)" and l: "length d \<le> length u"
  from p have "d = take (length d) (u @ r)" by (metis append_eq_conv_conj prefixE)
  then have "d = take (length d) u" using l by simp
  then show ?thesis using take_is_prefix by metis
qed

lemma splitOn_Nil: "d \<noteq> [] \<Longrightarrow> splitOn d [] = [[]]"
  by (subst splitOn.simps) simp

lemma splitOn_prefix: "d \<noteq> [] \<Longrightarrow> splitOn d (d @ r) = [] # splitOn d r"
  by (subst splitOn.simps) simp

lemma splitOn_no_prefix:
  "d \<noteq> [] \<Longrightarrow> \<not> prefix d (c # cs) \<Longrightarrow> splitOn d cs = w # ws \<Longrightarrow>
   splitOn d (c # cs) = (c # w) # ws"
  by (subst splitOn.simps) simp

lemma delimLast_tl: "delimLast d (c # x) \<Longrightarrow> delimLast d x"
  by (auto simp: delimLast_def suffix_Cons)

lemma noDelim_tl: "noDelim d (c # x) \<Longrightarrow> noDelim d x"
  by (auto simp: noDelim_def suffix_Cons)

lemma splitOn_delimLast:
  "d \<noteq> [] \<Longrightarrow> delimLast d x \<Longrightarrow> splitOn d (x @ d @ r) = x # splitOn d r"
proof (induction x)
  case Nil
  then show ?case by (simp add: splitOn_prefix)
next
  case (Cons c x)
  have "\<not> prefix d ((c # x) @ d)" using Cons.prems(2) by (auto simp: delimLast_def)
  then have np: "\<not> prefix d (c # (x @ d @ r))"
    using prefix_append_short [of d "(c # x) @ d" r] by auto
  have "splitOn d (x @ d @ r) = x # splitOn d r"
    using Cons.IH [OF Cons.prems(1) delimLast_tl [OF Cons.prems(2)]] .
  from splitOn_no_prefix [OF Cons.prems(1) np this] show ?case by simp
qed

lemma splitOn_noDelim: "d \<noteq> [] \<Longrightarrow> noDelim d x \<Longrightarrow> splitOn d x = [x]"
proof (induction x)
  case Nil
  then show ?case by (simp add: splitOn_Nil)
next
  case (Cons c x)
  have np: "\<not> prefix d (c # x)" using Cons.prems(2) by (auto simp: noDelim_def)
  have "splitOn d x = [x]" using Cons.IH [OF Cons.prems(1) noDelim_tl [OF Cons.prems(2)]] .
  from splitOn_no_prefix [OF Cons.prems(1) np this] show ?case .
qed

lemma goodCards_Cons: "ws \<noteq> [] \<Longrightarrow> goodCards d (w # ws) \<longleftrightarrow> delimLast d w \<and> goodCards d ws"
  by (cases ws) auto

lemma splitOn_good: "d \<noteq> [] \<Longrightarrow> goodCards d (splitOn d s)"
proof (induction d s rule: splitOn.induct)
  case (1 d s)
  show ?case
  proof (cases "s = []")
    case True
    then show ?thesis using 1(3) by (simp add: splitOn_Nil noDelim_def)
  next
    case ne: False
    show ?thesis
    proof (cases "prefix d s")
      case True
      then obtain r where r: "s = d @ r" by (auto simp: prefix_def)
      have "goodCards d (splitOn d (drop (length d) s))" using 1(1) 1(3) ne True by simp
      then have "goodCards d (splitOn d r)" using r by simp
      moreover have "delimLast d []" by (simp add: delimLast_def)
      ultimately show ?thesis
        using r 1(3) by (simp add: splitOn_prefix goodCards_Cons splitOn_not_Nil)
    next
      case False
      obtain c cs where s: "s = c # cs" using ne by (cases s) auto
      have ih: "goodCards d (splitOn d cs)" using 1(2) 1(3) ne False s by simp
      obtain w ws where w: "splitOn d cs = w # ws"
        using splitOn_not_Nil [OF 1(3), of cs] by (cases "splitOn d cs") auto
      have sp: "splitOn d s = (c # w) # ws"
        using splitOn_no_prefix [OF 1(3) _ w] False s by simp
      have j: "joinWith d (w # ws) = cs" using join_splitOn [OF 1(3), of cs] w by simp
      show ?thesis
      proof (cases ws)
        case Nil
        then have cw: "cs = w" using j by simp
        have "noDelim d w" using ih w Nil by simp
        then have "noDelim d (c # w)"
          using False s cw by (auto simp: noDelim_def suffix_Cons)
        then show ?thesis using sp Nil by simp
      next
        case (Cons y ys)
        then have cw: "cs = w @ d @ joinWith d ws" using j by simp
        have dl: "delimLast d w" and g: "goodCards d ws" using ih w Cons by auto
        have "\<not> prefix d ((c # w) @ d)"
        proof
          assume "prefix d ((c # w) @ d)"
          then have "prefix d (((c # w) @ d) @ joinWith d ws)" using prefix_prefix by blast
          then show False using False s cw by simp
        qed
        then have "delimLast d (c # w)" using dl by (auto simp: delimLast_def suffix_Cons)
        then show ?thesis using sp g Cons by simp
      qed
    qed
  qed
qed

lemma splitOn_join_good: "d \<noteq> [] \<Longrightarrow> goodCards d cs \<Longrightarrow> splitOn d (joinWith d cs) = cs"
proof (induction d cs rule: goodCards.induct)
  case (1 d)
  then show ?case by simp
next
  case (2 d x)
  then show ?case by (simp add: splitOn_noDelim)
next
  case (3 d x y ys)
  then show ?case by (simp add: splitOn_delimLast)
qed

lemma goodCards_map:
  assumes "\<And>x. noDelim d x \<Longrightarrow> noDelim d (f x)" "\<And>x. delimLast d x \<Longrightarrow> delimLast d (f x)"
  shows "goodCards d cs \<Longrightarrow> goodCards d (map f cs)"
  by (induction cs rule: induct_list012) (auto simp: assms)

section \<open>Renumbering and the delimiter\<close>

lemma render_scan:
  assumes "\<forall>s g rest. m s = Some (g, rest) \<longrightarrow> suffix rest s"
  shows "render (scan m s) = s"
  using assms
proof (induction m s rule: scan.induct)
  case (1 m)
  then show ?case by simp
next
  case (2 m c cs)
  show ?case
  proof (cases "m (c # cs)")
    case None
    then show ?thesis using 2(1) [OF None 2(4)] by simp
  next
    case (Some a)
    obtain g rest where a: "a = (g, rest)" by (cases a)
    show ?thesis
    proof (cases "length rest < length (c # cs)")
      case True
      have "suffix rest (c # cs)" using 2(4) Some a by blast
      then obtain f where f: "c # cs = f @ rest" by (auto simp: suffix_def)
      have fne: "f \<noteq> []" using True f by auto
      have ih: "render (scan m rest) = rest" using 2(2) [OF Some a [symmetric] True 2(4)] .
      have "m (f @ rest) = Some (g, rest)" using Some a f by simp
      from scan_append_Some [of m f rest g, OF this fne] have "scan m (c # cs) = Hit f g # scan m rest"
        using f by simp
      then show ?thesis using ih f by simp
    next
      case False
      then show ?thesis using Some a 2(3) [OF Some a [symmetric] False 2(4)] by simp
    qed
  qed
qed

lemma opener_suffix: "opener l s = Some (n, r) \<Longrightarrow> suffix r s"
  by (drule opener_elim) (auto simp: suffix_def)

lemma render_scan_opener: "render (scan (opener l) s) = s"
  by (rule render_scan) (auto dest: opener_suffix)

lemma prefix_render_lits:
  assumes "sameShape qs ps"
    and "\<forall>f g. Hit f g \<in> set qs \<longrightarrow> f \<noteq> [] \<and> (\<forall>c\<in>set f. isOpenerChar c)"
    and "\<forall>c\<in>set d. \<not> isOpenerChar c"
    and "prefix d (render qs @ e)"
  shows "prefix d (render ps @ e)"
  using assms
proof (induction qs arbitrary: ps d)
  case Nil
  then show ?case by simp
next
  case (Cons q qs)
  show ?case
  proof (cases d)
    case Nil
    then show ?thesis by simp
  next
    case d: (Cons a d1)
    show ?thesis
    proof (cases q)
      case (Lit c)
      then obtain ps' where ps: "ps = Lit c # ps'" "sameShape qs ps'"
        using Cons.prems(1) sameShape_Lit_left by blast
      have "a = c" and "prefix d1 (render qs @ e)" using Cons.prems(4) d Lit by auto
      moreover have "prefix d1 (render ps' @ e)"
        using Cons.IH [OF ps(2) _ _ \<open>prefix d1 (render qs @ e)\<close>] Cons.prems(2,3) d by auto
      ultimately show ?thesis using ps(1) d by simp
    next
      case (Hit f g)
      then have f: "f \<noteq> []" "\<forall>c\<in>set f. isOpenerChar c" using Cons.prems(2) by auto
      then obtain b f' where "f = b # f'" by (cases f) auto
      then have "a = b" "isOpenerChar b" using Cons.prems(4) d Hit f by auto
      then show ?thesis using Cons.prems(3) d by auto
    qed
  qed
qed

lemma occurs_render:
  assumes "sameShape qs ps"
    and "\<forall>f g. Hit f g \<in> set qs \<longrightarrow> f \<noteq> [] \<and> (\<forall>c\<in>set f. isOpenerChar c)"
    and "\<forall>c\<in>set d. \<not> isOpenerChar c" and "d \<noteq> []"
    and "suffix b (render qs)" and "b \<noteq> []" and "prefix d (b @ e)"
  shows "\<exists>b'. suffix b' (render ps) \<and> b' \<noteq> [] \<and> prefix d (b' @ e)"
  using assms
proof (induction qs arbitrary: ps)
  case Nil
  then show ?case by simp
next
  case (Cons q qs)
  obtain p ps' where ps: "ps = p # ps'" "samePiece q p" "sameShape qs ps'"
    using Cons.prems(1) by (cases ps) auto
  have hq: "\<forall>f g. Hit f g \<in> set qs \<longrightarrow> f \<noteq> [] \<and> (\<forall>c\<in>set f. isOpenerChar c)"
    using Cons.prems(2) by auto
  from Cons.prems(5) have "suffix b (raw q @ render qs)" by simp
  then have "suffix b (render qs) \<or> (\<exists>b0. suffix b0 (raw q) \<and> b = b0 @ render qs)"
    by (auto simp: suffix_append)
  then have "suffix b (render qs) \<or> (\<exists>b0. suffix b0 (raw q) \<and> b = b0 @ render qs \<and> b0 \<noteq> [])"
    by (metis append_Nil suffix_order.refl)
  then consider (tail) "suffix b (render qs)" | (head) b0 where "suffix b0 (raw q)" "b = b0 @ render qs" "b0 \<noteq> []"
    by blast
  then show ?case
  proof cases
    case tail
    from Cons.IH [OF ps(3) hq Cons.prems(3,4) tail Cons.prems(6,7)]
    obtain b' where "suffix b' (render ps')" "b' \<noteq> []" "prefix d (b' @ e)" by blast
    then show ?thesis using ps(1) by (auto simp: suffix_append)
  next
    case head
    obtain a d1 where d: "d = a # d1" using Cons.prems(4) by (cases d) auto
    obtain h b1 where b0: "b0 = h # b1" using head(3) by (cases b0) auto
    have ah: "a = h" using Cons.prems(7) head(2) d b0 by simp
    show ?thesis
    proof (cases q)
      case (Lit c)
      then have p: "p = Lit c" using ps(2) by (cases p) auto
      have "b0 = [c]" using head(1,3) Lit by (auto simp: suffix_Cons)
      then have "prefix d1 (render qs @ e)" using Cons.prems(7) head(2) d by simp
      then have "prefix d1 (render ps' @ e)"
        using prefix_render_lits [OF ps(3) hq] Cons.prems(3) d by auto
      then have "prefix d (render ps @ e)" using ps(1) p d ah b0 \<open>b0 = [c]\<close> by simp
      moreover have "render ps \<noteq> []" using ps(1) p by simp
      ultimately show ?thesis by blast
    next
      case (Hit f g)
      then have "\<forall>c\<in>set f. isOpenerChar c" using Cons.prems(2) by auto
      moreover have "h \<in> set f" using head(1) b0 Hit by (auto simp: suffix_def)
      ultimately show ?thesis using Cons.prems(3) d ah by auto
    qed
  qed
qed

lemma digit_openerChar: "isDigit c \<Longrightarrow> isOpenerChar c"
  by (simp add: isOpenerChar_def)

lemma normalHit_openerChars:
  "\<forall>p\<in>set qs. normalHit p \<Longrightarrow>
   \<forall>f g. Hit f g \<in> set qs \<longrightarrow> f \<noteq> [] \<and> (\<forall>c\<in>set f. isOpenerChar c)"
proof (intro allI impI)
  fix f g assume "\<forall>p\<in>set qs. normalHit p" "Hit f g \<in> set qs"
  then have "normalHit (Hit f g)" by blast
  then have "f = ''{{c'' @ g @ ''::''" "\<forall>c\<in>set g. isDigit c" by (simp_all add: normalHit_def)
  then show "f \<noteq> [] \<and> (\<forall>c\<in>set f. isOpenerChar c)"
    by (auto simp: isOpenerChar_def)
qed

lemma renumberCard_occurs:
  assumes "\<forall>c\<in>set d. \<not> isOpenerChar c" "d \<noteq> []"
    and "suffix b (renumberCard x)" "b \<noteq> []" "prefix d (b @ e)"
  shows "\<exists>b'. suffix b' x \<and> b' \<noteq> [] \<and> prefix d (b' @ e)"
proof -
  let ?ps = "scan (opener True) x"
  let ?qs = "relabel Map.empty 1 ?ps"
  have r: "renumberCard x = render ?qs" by (simp add: renumberCard_def renumberFrom_render)
  have n: "\<forall>p\<in>set ?qs. normalHit p" by (rule relabel_normal) simp
  from occurs_render [OF sameShape_relabel normalHit_openerChars [OF n] assms(1,2) _ assms(4,5)]
    assms(3) r
  have "\<exists>b'. suffix b' (render ?ps) \<and> b' \<noteq> [] \<and> prefix d (b' @ e)" by simp
  then show ?thesis by (simp add: render_scan_opener)
qed

lemma renumberCard_noDelim:
  assumes "\<forall>c\<in>set d. \<not> isOpenerChar c" "d \<noteq> []" "noDelim d x"
  shows "noDelim d (renumberCard x)"
proof (unfold noDelim_def, intro allI impI notI)
  fix b assume b: "suffix b (renumberCard x)" "prefix d b"
  then have "b \<noteq> []" using assms(2) by auto
  from renumberCard_occurs [OF assms(1,2) b(1) this, of "[]"] b(2)
  obtain b' where "suffix b' x" "prefix d b'" by auto
  then show False using assms(3) by (auto simp: noDelim_def)
qed

lemma renumberCard_delimLast:
  assumes "\<forall>c\<in>set d. \<not> isOpenerChar c" "d \<noteq> []" "delimLast d x"
  shows "delimLast d (renumberCard x)"
proof (unfold delimLast_def, intro allI impI notI)
  fix b assume b: "suffix b (renumberCard x) \<and> b \<noteq> []" "prefix d (b @ d)"
  from renumberCard_occurs [OF assms(1,2) _ _ b(2)] b(1)
  obtain b' where "suffix b' x" "b' \<noteq> []" "prefix d (b' @ d)" by auto
  then show False using assms(3) by (auto simp: delimLast_def)
qed

lemma resplit_renumbered:
  assumes "\<forall>c\<in>set (delimOf delimiter). \<not> isOpenerChar c"
  shows "splitOn (delimOf delimiter) (renumberClozesPerCard text delimiter)
           = map renumberCard (splitOn (delimOf delimiter) text)"
proof -
  let ?d = "delimOf delimiter"
  have d: "?d \<noteq> []" by (rule delimOf_not_Nil)
  have "goodCards ?d (splitOn ?d text)" by (rule splitOn_good [OF d])
  then have "goodCards ?d (map renumberCard (splitOn ?d text))"
    using renumberCard_noDelim [OF assms d] renumberCard_delimLast [OF assms d]
    by (intro goodCards_map) auto
  then show ?thesis
    by (simp add: renumberClozesPerCard_def Let_def splitOn_join_good [OF d])
qed

section \<open>The strict opener of enforceClozeWordLimit\<close>

lemma span_None_opener: "opener l s = None \<Longrightarrow> span l s = None"
  by (simp add: span_def)

lemma scan_all_Lit:
  "\<forall>b. suffix b s \<longrightarrow> m b = None \<Longrightarrow> scan m s = map Lit s"
proof (induction s)
  case Nil
  then show ?case by simp
next
  case (Cons c s)
  have "m (c # s) = None" using Cons.prems by simp
  moreover have "scan m s = map Lit s" using Cons by (simp add: suffix_Cons)
  ultimately show ?case by simp
qed

lemma concat_limitSpan_Lit: "concat (map (limitSpan k) (map Lit s)) = s"
  by (induction s) (simp_all add: limitSpan_def)

lemma opener_first: "opener l s = Some (n, r) \<Longrightarrow> \<exists>t. s = CHR ''{'' # CHR ''{'' # t"
  by (drule opener_elim, elim exE conjE) simp

lemma opener_None_hd: "b = [] \<or> hd b \<noteq> CHR ''{'' \<Longrightarrow> opener l b = None"
proof (cases "opener l b")
  case None
  then show ?thesis by simp
next
  case (Some a)
  assume h: "b = [] \<or> hd b \<noteq> CHR ''{''"
  obtain n r where "a = (n, r)" by (cases a)
  with Some opener_first [of l b n r] obtain t where "b = CHR ''{'' # CHR ''{'' # t" by auto
  then show ?thesis using h by simp
qed

lemma opener_None_second: "t = [] \<or> hd t \<noteq> CHR ''{'' \<Longrightarrow> opener l (c # t) = None"
proof (cases "opener l (c # t)")
  case None
  then show ?thesis by simp
next
  case (Some a)
  assume h: "t = [] \<or> hd t \<noteq> CHR ''{''"
  obtain n r where "a = (n, r)" by (cases a)
  with Some opener_first [of l "c # t" n r] obtain t' where "c # t = CHR ''{'' # CHR ''{'' # t'" by auto
  then show ?thesis using h by auto
qed

lemma opener_strict_elim:
  assumes "opener False s = Some (n, r)"
  shows "s = ''{{c'' @ n @ ''::'' @ r" "n \<noteq> []" "\<forall>x\<in>set n. isDigit x"
proof -
  from opener_elim [OF assms] obtain w1 w2 where
    e: "s = ''{{'' @ w1 @ ''c'' @ n @ w2 @ ''::'' @ r" and w: "w1 = [] \<and> w2 = []"
    and n: "n \<noteq> []" "\<forall>x\<in>set n. isDigit x"
    by blast
  show "s = ''{{c'' @ n @ ''::'' @ r" using e w by simp
  show "n \<noteq> []" "\<forall>x\<in>set n. isDigit x" using n by simp_all
qed

lemma opener_strict_append_close:
  assumes "opener False (b @ ''}}'') = Some (n, r)"
  shows "\<exists>r'. opener False b = Some (n, r')"
proof -
  from opener_strict_elim [OF assms] have e: "b @ ''}}'' = ''{{c'' @ n @ ''::'' @ r"
    and n: "n \<noteq> []" "\<forall>x\<in>set n. isDigit x" by simp_all
  define p where "p = ''{{c'' @ n @ ''::''"
  have "\<not> isDigit CHR ''}''" by (simp add: isDigit_def)
  then have "CHR ''}'' \<notin> set n" using n(2) by blast
  then have nb: "CHR ''}'' \<notin> set p" by (simp add: p_def)
  have "p @ r = b @ ''}}''" using e by (simp add: p_def)
  then have "\<exists>us. (p = b @ us \<and> us @ r = ''}}'') \<or> (p @ us = b \<and> r = us @ ''}}'')"
    unfolding append_eq_append_conv2 by blast
  then obtain us where "(p = b @ us \<and> us @ r = ''}}'') \<or> (p @ us = b \<and> r = us @ ''}}'')"
    by blast
  then have "\<exists>us. b = p @ us"
  proof
    assume a: "p = b @ us \<and> us @ r = ''}}''"
    show ?thesis
    proof (cases us)
      case Nil
      then show ?thesis using a by simp
    next
      case (Cons u us')
      then have "u = CHR ''}''" using a by simp
      then show ?thesis using a Cons nb by simp
    qed
  next
    assume "p @ us = b \<and> r = us @ ''}}''"
    then show ?thesis by auto
  qed
  then obtain us where "b = ''{{'' @ [] @ ''c'' @ n @ [] @ ''::'' @ us" by (auto simp: p_def)
  moreover have "opener False (''{{'' @ [] @ ''c'' @ n @ [] @ ''::'' @ us) = Some (n, us)"
    using n by (intro opener_intro) auto
  ultimately show ?thesis by auto
qed

lemma opener_strict_needs_no_space:
  assumes "\<forall>x\<in>set w1. isSpace x" "\<forall>x\<in>set w2. isSpace x" "w1 @ w2 \<noteq> []" "\<forall>x\<in>set n. isDigit x"
  shows "opener False (''{{'' @ w1 @ ''c'' @ n @ w2 @ ''::'' @ r) = None"
proof (cases w1)
  case (Cons a w)
  then have "isSpace a" using assms(1) by simp
  then have "a \<noteq> CHR ''c''" by (auto simp: isSpace_def)
  then show ?thesis using Cons by (simp add: opener_def skipWs_def)
next
  case Nil
  then obtain a w where w2: "w2 = a # w" using assms(3) by (cases w2) auto
  then have a: "isSpace a" using assms(2) by simp
  then have na: "\<not> isDigit a" "a \<noteq> CHR '':''" by (auto simp: isSpace_def isDigit_def)
  have "takeWhile isDigit (n @ a # w @ ''::'' @ r) = n"
    using assms(4) na by (simp add: takeWhile_tail)
  moreover have "dropWhile isDigit (n @ a # w @ ''::'' @ r) = a # w @ ''::'' @ r"
    using assms(4) na by (simp add: dropWhile_append)
  ultimately show ?thesis using Nil w2 na by (simp add: opener_def skipWs_def split: list.splits)
qed

section \<open>Whitespace-delimited tokens\<close>

lemma splitWs_not_Nil: "splitWs s \<noteq> []"
  by (cases s) (auto split: list.splits)

lemma splitWs_nonspace:
  "\<not> isSpace c \<Longrightarrow> splitWs (c # cs) = (c # hd (splitWs cs)) # tl (splitWs cs)"
  using splitWs_not_Nil [of cs] by (cases "splitWs cs") auto

lemma splitWs_space: "isSpace c \<Longrightarrow> splitWs (c # cs) = [] # splitWs (dropWhile isSpace cs)"
  by simp

lemma tokens_Nil [simp]: "tokens [] = []"
  by (simp add: tokens_def)

lemma tokens_space: "isSpace c \<Longrightarrow> tokens (c # cs) = tokens (dropWhile isSpace cs)"
  by (simp add: tokens_def)

lemma tokens_nonspace:
  "\<not> isSpace c \<Longrightarrow> tokens (c # cs) = (c # hd (splitWs cs)) # filter (\<lambda>w. w \<noteq> []) (tl (splitWs cs))"
  by (simp add: tokens_def splitWs_nonspace del: splitWs.simps)

lemma tokens_dropWhile: "tokens (dropWhile isSpace x) = tokens x"
proof (induction x)
  case Nil
  then show ?case by simp
next
  case (Cons c x)
  then show ?case by (simp add: tokens_space del: splitWs.simps)
qed

lemma splitWs_all_space: "\<forall>c\<in>set w. isSpace c \<Longrightarrow> splitWs w = [[]] \<or> splitWs w = [[], []]"
proof (cases w)
  case Nil
  then show ?thesis by simp
next
  case (Cons c cs)
  assume a: "\<forall>c\<in>set w. isSpace c"
  then have c: "isSpace c" using Cons by simp
  have "\<forall>x\<in>set cs. isSpace x" using a Cons by simp
  then have d: "dropWhile isSpace cs = []" by (simp only: dropWhile_eq_Nil_conv)
  show ?thesis using Cons c by (simp add: d)
qed

lemma splitWs_append_space:
  "\<forall>c\<in>set w. isSpace c \<Longrightarrow> \<exists>k. splitWs (x @ w) = splitWs x @ replicate k []"
proof (induction x rule: splitWs.induct)
  case 1
  then have "splitWs w = [[]] \<or> splitWs w = [[], []]" by (rule splitWs_all_space)
  then show ?case
  proof
    assume "splitWs w = [[]]"
    then have "splitWs ([] @ w) = splitWs [] @ replicate 0 []" by simp
    then show ?thesis by blast
  next
    assume "splitWs w = [[], []]"
    then have "splitWs ([] @ w) = splitWs [] @ replicate 1 []" by simp
    then show ?thesis by blast
  qed
next
  case (2 c cs)
  show ?case
  proof (cases "isSpace c")
    case True
    show ?thesis
    proof (cases "\<forall>x\<in>set cs. isSpace x")
      case all: True
      then have "\<forall>x\<in>set (cs @ w). isSpace x" using 2(3) by auto
      then have d1: "dropWhile isSpace (cs @ w) = []" by (simp only: dropWhile_eq_Nil_conv)
      have d2: "dropWhile isSpace cs = []" using all by (simp only: dropWhile_eq_Nil_conv)
      have "splitWs ((c # cs) @ w) = splitWs (c # cs) @ replicate 0 []"
        using True by (simp add: d1 d2 del: dropWhile_append)
      then show ?thesis by blast
    next
      case False
      then have d: "dropWhile isSpace (cs @ w) = dropWhile isSpace cs @ w"
        by (auto simp: dropWhile_append)
      from 2(1) [OF True 2(3)] obtain k where
        "splitWs (dropWhile isSpace cs @ w) = splitWs (dropWhile isSpace cs) @ replicate k []"
        by blast
      then have "splitWs ((c # cs) @ w) = splitWs (c # cs) @ replicate k []"
        using True d by simp
      then show ?thesis by blast
    qed
  next
    case False
    from 2(2) [OF False 2(3)] obtain k where k: "splitWs (cs @ w) = splitWs cs @ replicate k []"
      by blast
    obtain h t where ht: "splitWs cs = h # t" using splitWs_not_Nil [of cs] by (cases "splitWs cs") auto
    have "splitWs ((c # cs) @ w) = splitWs (c # cs) @ replicate k []"
      using False k ht by simp
    then show ?thesis by blast
  qed
qed

lemma tokens_append_space: "\<forall>c\<in>set w. isSpace c \<Longrightarrow> tokens (x @ w) = tokens x"
proof -
  assume "\<forall>c\<in>set w. isSpace c"
  then obtain k where "splitWs (x @ w) = splitWs x @ replicate k []"
    using splitWs_append_space by blast
  then show ?thesis by (simp add: tokens_def)
qed

lemma tokens_trim: "tokens (trim x) = tokens x"
proof -
  let ?y = "dropWhile isSpace x"
  have "?y = rev (dropWhile isSpace (rev ?y)) @ rev (takeWhile isSpace (rev ?y))"
    by (metis rev_append rev_rev_ident takeWhile_dropWhile_id)
  then have y: "?y = trim x @ rev (takeWhile isSpace (rev ?y))" by (simp add: trim_def)
  have "\<forall>c\<in>set (rev (takeWhile isSpace (rev ?y))). isSpace c"
    by (auto dest: set_takeWhileD)
  then have "tokens (trim x @ rev (takeWhile isSpace (rev ?y))) = tokens (trim x)"
    by (rule tokens_append_space)
  then have "tokens ?y = tokens (trim x)" using y by simp
  then show ?thesis by (simp add: tokens_dropWhile)
qed

lemma splitWs_word_space:
  assumes "w \<noteq> []" "\<forall>c\<in>set w. \<not> isSpace c" "isSpace s"
  shows "splitWs (w @ s # rest) = w # splitWs (dropWhile isSpace rest)"
  using assms(1,2)
proof (induction w)
  case Nil
  then show ?case by simp
next
  case (Cons a w)
  show ?case
  proof (cases "w = []")
    case True
    then show ?thesis using Cons.prems assms(3) by simp
  next
    case False
    then show ?thesis using Cons by simp
  qed
qed

lemma splitWs_word:
  assumes "w \<noteq> []" "\<forall>c\<in>set w. \<not> isSpace c"
  shows "splitWs w = [w]"
  using assms
proof (induction w)
  case Nil
  then show ?case by simp
next
  case (Cons a w)
  show ?case
  proof (cases "w = []")
    case True
    then show ?thesis using Cons.prems by simp
  next
    case False
    then show ?thesis using Cons by simp
  qed
qed

lemma tokens_word: "w \<noteq> [] \<Longrightarrow> \<forall>c\<in>set w. \<not> isSpace c \<Longrightarrow> tokens w = [w]"
  by (simp add: tokens_def splitWs_word)

lemma tokens_word_space:
  assumes "w \<noteq> []" "\<forall>c\<in>set w. \<not> isSpace c" "isSpace s"
  shows "tokens (w @ s # rest) = w # tokens rest"
proof -
  have "tokens (w @ s # rest) = w # tokens (dropWhile isSpace rest)"
    using assms by (simp add: tokens_def splitWs_word_space)
  then show ?thesis by (simp add: tokens_dropWhile)
qed

lemma tokens_joinWith:
  "\<forall>w\<in>set ws. w \<noteq> [] \<and> (\<forall>c\<in>set w. \<not> isSpace c) \<Longrightarrow> tokens (joinWith '' '' ws) = ws"
proof (induction ws rule: induct_list012)
  case 1
  then show ?case by simp
next
  case (2 x)
  then show ?case by (simp add: tokens_word)
next
  case (3 x y zs)
  have "isSpace CHR '' ''" by (simp add: isSpace_def)
  then have "tokens (x @ CHR '' '' # joinWith '' '' (y # zs)) = x # tokens (joinWith '' '' (y # zs))"
    using 3(3) by (intro tokens_word_space) auto
  then show ?case using 3 by simp
qed

lemma splitWs_props:
  "prefix (hd (splitWs s)) s \<and> (\<forall>w\<in>set (splitWs s). sublist w s \<and> (\<forall>c\<in>set w. \<not> isSpace c))"
proof (induction s rule: splitWs.induct)
  case 1
  then show ?case by simp
next
  case (2 c cs)
  show ?case
  proof (cases "isSpace c")
    case True
    have "suffix (dropWhile isSpace cs) (c # cs)"
      by (metis suffix_ConsI suffix_dropWhile)
    then have "\<And>w. sublist w (dropWhile isSpace cs) \<Longrightarrow> sublist w (c # cs)"
      by (meson sublist_order.order_trans suffix_imp_sublist)
    then show ?thesis using 2(1) [OF True] True by auto
  next
    case False
    obtain h t where ht: "splitWs cs = h # t" using splitWs_not_Nil [of cs] by (cases "splitWs cs") auto
    from 2(2) [OF False] ht have p: "prefix h cs"
      and a: "\<forall>w\<in>set (h # t). sublist w cs \<and> (\<forall>c\<in>set w. \<not> isSpace c)" by auto
    have s: "splitWs (c # cs) = (c # h) # t" using False ht by simp
    have "prefix (c # h) (c # cs)" using p by simp
    moreover have "\<forall>w\<in>set t. sublist w (c # cs)" using a by (auto intro: sublist_Cons_right [THEN iffD2])
    ultimately show ?thesis using s a False by (auto dest: prefix_imp_sublist)
  qed
qed

lemma splitWs_cover: "c \<in> set s \<Longrightarrow> isSpace c \<or> (\<exists>w\<in>set (splitWs s). c \<in> set w)"
proof (induction s rule: splitWs.induct)
  case 1
  then show ?case by simp
next
  case (2 a cs)
  show ?case
  proof (cases "isSpace a")
    case True
    show ?thesis
    proof (cases "c \<in> set (dropWhile isSpace cs)")
      case d: True
      then show ?thesis using 2(1) [OF True d] True by auto
    next
      case d: False
      have "cs = takeWhile isSpace cs @ dropWhile isSpace cs" by simp
      then have "set cs = set (takeWhile isSpace cs) \<union> set (dropWhile isSpace cs)"
        by (metis set_append)
      then have "c = a \<or> c \<in> set (takeWhile isSpace cs)" using 2(3) d by auto
      then show ?thesis using True by (auto dest: set_takeWhileD)
    qed
  next
    case False
    obtain h t where ht: "splitWs cs = h # t" using splitWs_not_Nil [of cs] by (cases "splitWs cs") auto
    have s: "splitWs (a # cs) = (a # h) # t" using False ht by simp
    show ?thesis
    proof (cases "c = a")
      case True
      then show ?thesis using s by simp
    next
      case ne: False
      then have "c \<in> set cs" using 2(3) by simp
      from 2(2) [OF False this] show ?thesis using ht s by auto
    qed
  qed
qed

section \<open>Edge stripping and closing braces\<close>

lemma space_not_word: "isSpace c \<Longrightarrow> \<not> isWordChar c"
  by (auto simp: isSpace_def isWordChar_def)

lemma word_not_brace: "isWordChar c \<Longrightarrow> c \<noteq> CHR ''}''"
  by (auto simp: isWordChar_def)

lemma stripEdges_Nil_iff: "stripEdges w = [] \<longleftrightarrow> (\<forall>c\<in>set w. \<not> isWordChar c)"
proof -
  let ?P = "\<lambda>c. \<not> isWordChar c"
  let ?y = "dropWhile ?P w"
  have "stripEdges w = [] \<longleftrightarrow> (\<forall>c\<in>set ?y. ?P c)"
    by (simp add: stripEdges_def dropWhile_eq_Nil_conv)
  also have "\<dots> \<longleftrightarrow> ?y = []"
  proof
    assume a: "\<forall>c\<in>set ?y. ?P c"
    show "?y = []"
    proof (rule ccontr)
      assume "?y \<noteq> []"
      then have "\<not> ?P (hd ?y)" "hd ?y \<in> set ?y"
        using hd_dropWhile [of ?P w] hd_in_set [of ?y] by blast+
      then show False using a by blast
    qed
  next
    assume "?y = []"
    then show "\<forall>c\<in>set ?y. ?P c" by (metis empty_iff empty_set)
  qed
  also have "\<dots> \<longleftrightarrow> (\<forall>c\<in>set w. ?P c)" by (simp only: dropWhile_eq_Nil_conv)
  finally show ?thesis .
qed

lemma stripEdges_sublist: "sublist (stripEdges w) w"
proof -
  let ?P = "\<lambda>c. \<not> isWordChar c"
  let ?y = "dropWhile ?P w"
  have "suffix (dropWhile ?P (rev ?y)) (rev ?y)" by (rule suffix_dropWhile)
  then have "prefix (stripEdges w) ?y" by (simp add: stripEdges_def prefix_def suffix_def) (metis rev_append rev_rev_ident)
  moreover have "suffix ?y w" by (rule suffix_dropWhile)
  ultimately show ?thesis
    by (meson prefix_imp_sublist sublist_order.order_trans suffix_imp_sublist)
qed

lemma stripEdges_ends:
  assumes "stripEdges w \<noteq> []"
  shows "isWordChar (hd (stripEdges w)) \<and> isWordChar (last (stripEdges w))"
proof -
  let ?P = "\<lambda>c. \<not> isWordChar c"
  let ?y = "dropWhile ?P w"
  let ?z = "dropWhile ?P (rev ?y)"
  have s: "stripEdges w = rev ?z" by (simp add: stripEdges_def)
  have z: "?z \<noteq> []" using assms unfolding s by (metis rev_is_Nil_conv)
  then have y: "?y \<noteq> []" by (metis dropWhile.simps(1) rev_is_Nil_conv)
  have "isWordChar (hd ?z)" using z hd_dropWhile [of ?P "rev ?y"] by blast
  moreover have "last (rev ?z) = hd ?z" using z by (metis last_rev)
  ultimately have l: "isWordChar (last (stripEdges w))" unfolding s by metis
  have "isWordChar (hd ?y)" using y hd_dropWhile [of ?P w] by blast
  moreover have "last (rev ?y) = hd ?y" using y by (metis last_rev)
  moreover have "last ?z = last (rev ?y)"
    using z by (metis last_appendR takeWhile_dropWhile_id)
  ultimately have "isWordChar (last ?z)" by metis
  moreover have "hd (rev ?z) = last ?z" using z by (metis hd_rev)
  ultimately have "isWordChar (hd (stripEdges w))" unfolding s by metis
  then show ?thesis using l by blast
qed

lemma hasClose_sublist: "sublist x y \<Longrightarrow> hasClose x \<Longrightarrow> hasClose y"
  by (auto simp: sublist_def hasClose_append)

lemma hasClose_snoc_close: "hasClose (x @ ''}'') \<longleftrightarrow> hasClose x \<or> (x \<noteq> [] \<and> last x = CHR ''}'')"
  by (simp add: hasClose_append)

lemma hasClose_joinWith:
  assumes "\<forall>w\<in>set ws. \<not> hasClose w"
  shows "\<not> hasClose (joinWith '' '' ws)"
  using assms
proof (induction ws rule: induct_list012)
  case 1
  then show ?case by simp
next
  case (2 x)
  then show ?case by simp
next
  case (3 x y zs)
  then have "\<not> hasClose (joinWith '' '' (y # zs))" "\<not> hasClose x" by simp_all
  then have "\<not> hasClose ('' '' @ joinWith '' '' (y # zs))"
    by (subst hasClose_append) simp
  then show ?case using \<open>\<not> hasClose x\<close> by (simp add: hasClose_append)
qed

lemma last_joinWith:
  "ws \<noteq> [] \<Longrightarrow> last ws \<noteq> [] \<Longrightarrow>
   joinWith sep ws \<noteq> [] \<and> last (joinWith sep ws) = last (last ws)"
proof (induction ws rule: induct_list012)
  case 1
  then show ?case by simp
next
  case (2 x)
  then show ?case by simp
next
  case (3 x y zs)
  then have "joinWith sep (y # zs) \<noteq> [] \<and> last (joinWith sep (y # zs)) = last (last (y # zs))"
    by simp
  then show ?case by simp
qed

section \<open>The anchors of the keyword branch\<close>

lemma toLower_cases:
  "toLower x = x \<or> (x \<in> set ''ABCDEFGHIJKLMNOPQRSTUVWXYZ'' \<and> toLower x \<in> set ''abcdefghijklmnopqrstuvwxyz'')"
proof (cases "map_of (zip ''ABCDEFGHIJKLMNOPQRSTUVWXYZ'' ''abcdefghijklmnopqrstuvwxyz'') x")
  case None
  then show ?thesis by (simp add: toLower_def)
next
  case (Some l)
  then have "(x, l) \<in> set (zip ''ABCDEFGHIJKLMNOPQRSTUVWXYZ'' ''abcdefghijklmnopqrstuvwxyz'')"
    by (rule map_of_SomeD)
  then have "x \<in> set ''ABCDEFGHIJKLMNOPQRSTUVWXYZ''" "l \<in> set ''abcdefghijklmnopqrstuvwxyz''"
    by (auto dest: set_zip_leftD set_zip_rightD)
  moreover have "toLower x = l" using Some by (simp only: toLower_def option.case)
  ultimately show ?thesis by blast
qed

lemma isWordChar_alt:
  "isWordChar x \<longleftrightarrow> x \<in> set ''abcdefghijklmnopqrstuvwxyz'' \<or> x \<in> set ''ABCDEFGHIJKLMNOPQRSTUVWXYZ''
     \<or> x \<in> set ''0123456789_''"
proof -
  have "''abcdefghijklmnopqrstuvwxyzABCDEFGHIJKLMNOPQRSTUVWXYZ0123456789_''
          = ''abcdefghijklmnopqrstuvwxyz'' @ ''ABCDEFGHIJKLMNOPQRSTUVWXYZ'' @ ''0123456789_''"
    by simp
  then show ?thesis unfolding isWordChar_def by (simp only: set_append Un_iff)
qed

lemma apostrophe_no_letter:
  "CHR 0x27 \<notin> set ''ABCDEFGHIJKLMNOPQRSTUVWXYZ''" "CHR 0x27 \<notin> set ''abcdefghijklmnopqrstuvwxyz''"
  by simp_all

lemma isKwChar_toLower: "isKwChar (toLower x) = isKwChar x"
proof -
  from toLower_cases [of x] show ?thesis
  proof
    assume "toLower x = x"
    then show ?thesis by simp
  next
    assume a: "x \<in> set ''ABCDEFGHIJKLMNOPQRSTUVWXYZ'' \<and> toLower x \<in> set ''abcdefghijklmnopqrstuvwxyz''"
    then have "isWordChar x" "isWordChar (toLower x)" by (simp_all only: isWordChar_alt simp_thms)
    then show ?thesis by (simp only: isKwChar_def simp_thms)
  qed
qed

lemma ciEq_isKwChar: "ciEq c x \<Longrightarrow> isKwChar c \<Longrightarrow> isKwChar x"
  by (metis ciEq_def isKwChar_toLower)

lemma not_word_chars: "\<not> isWordChar CHR ''}''" "\<not> isWordChar CHR 0x27"
  by (simp_all add: isWordChar_def)

lemma isKwChar_plain: "isKwChar x \<Longrightarrow> \<not> isSpace x \<and> x \<noteq> CHR ''}''"
proof -
  assume k: "isKwChar x"
  have "\<not> isSpace CHR 0x27" by (simp add: isSpace_def)
  then have "\<not> isSpace x" using k space_not_word by (auto simp: isKwChar_def)
  moreover have "x \<noteq> CHR ''}''" using k not_word_chars(1) by (auto simp: isKwChar_def)
  ultimately show ?thesis by simp
qed

lemma matchRx_chars:
  "matchRx ps prev s = Some w \<Longrightarrow> \<forall>x\<in>set w. \<exists>c\<in>set (rxChars ps). ciEq c x"
proof (induction ps prev s arbitrary: w rule: matchRx.induct)
  case (1 prev s)
  then show ?case by simp
next
  case (2 ps prev s)
  then show ?case by (auto split: if_splits)
next
  case (3 c ps prev)
  then show ?case by simp
next
  case (4 c ps prev x xs)
  then have e: "ciEq c x" by (auto split: if_splits)
  then obtain w' where w': "matchRx ps (Some x) xs = Some w'" "w = x # w'"
    using 4(2) by auto
  have "\<forall>y\<in>set w'. \<exists>c\<in>set (rxChars ps). ciEq c y" using 4(1) [OF e w'(1)] .
  then show ?case using e w'(2) by auto
next
  case (5 c ps prev)
  then show ?case by auto
next
  case (6 c ps prev x xs)
  show ?case
  proof (cases "ciEq c x \<and> matchRx ps (Some x) xs \<noteq> None")
    case True
    then obtain w' where w': "matchRx ps (Some x) xs = Some w'" by auto
    then have "w = x # w'" using 6(3) True by simp
    moreover have "\<forall>y\<in>set w'. \<exists>c\<in>set (rxChars ps). ciEq c y"
      using 6(1) True w' by blast
    ultimately show ?thesis using True by auto
  next
    case False
    then have n: "(if ciEq c x then map_option ((#) x) (matchRx ps (Some x) xs) else None) = None"
      by auto
    then have "matchRx ps prev (x # xs) = Some w" using 6(3) by simp
    from 6(2) [OF n this] show ?thesis by auto
  qed
qed

lemma matchRx_nonempty:
  "matchRx ps prev s = Some w \<Longrightarrow> hasReq ps \<Longrightarrow> w \<noteq> []"
proof (induction ps prev s arbitrary: w rule: matchRx.induct)
  case (1 prev s)
  then show ?case by simp
next
  case (2 ps prev s)
  then show ?case by (auto split: if_splits)
next
  case (3 c ps prev)
  then show ?case by simp
next
  case (4 c ps prev x xs)
  then show ?case by (auto split: if_splits)
next
  case (5 c ps prev)
  then show ?case by auto
next
  case (6 c ps prev x xs)
  show ?case
  proof (cases "ciEq c x \<and> matchRx ps (Some x) xs \<noteq> None")
    case True
    then show ?thesis using 6(3) by auto
  next
    case False
    then have n: "(if ciEq c x then map_option ((#) x) (matchRx ps (Some x) xs) else None) = None"
      by auto
    then have "matchRx ps prev (x # xs) = Some w" using 6(3) by simp
    from 6(2) [OF n this] 6(4) show ?thesis by simp
  qed
qed

lemma searchRx_match: "searchRx ps prev s = Some w \<Longrightarrow> \<exists>prev' s'. matchRx ps prev' s' = Some w"
proof (induction s arbitrary: prev)
  case Nil
  then show ?case by auto
next
  case (Cons x xs)
  then show ?case by (cases "matchRx ps prev (x # xs)") auto
qed

lemma patterns_good: "\<forall>re\<in>set patterns. goodRx re"
  by (simp add: patterns_def kw_def lit_def goodRx_def isKwChar_def isWordChar_def)

lemma searchRx_good:
  assumes "searchRx ps prev s = Some w" "goodRx ps"
  shows "w \<noteq> [] \<and> (\<forall>x\<in>set w. isKwChar x)"
proof -
  from searchRx_match [OF assms(1)] obtain prev' s' where m: "matchRx ps prev' s' = Some w" by blast
  have "w \<noteq> []" using matchRx_nonempty [OF m] assms(2) by (simp add: goodRx_def)
  moreover have "\<forall>x\<in>set w. isKwChar x"
    using matchRx_chars [OF m] assms(2) ciEq_isKwChar by (auto simp: goodRx_def)
  ultimately show ?thesis by simp
qed

lemma keywordAnchor_good:
  "keywordAnchor res s = Some a \<Longrightarrow> \<forall>re\<in>set res. goodRx re \<Longrightarrow>
   a = schuffnersDots \<or> (a \<noteq> [] \<and> (\<forall>x\<in>set a. isKwChar x))"
proof (induction res)
  case Nil
  then show ?case by simp
next
  case (Cons re res)
  show ?case
  proof (cases "searchRx re None s")
    case None
    then show ?thesis using Cons by simp
  next
    case (Some w)
    then have "w \<noteq> [] \<and> (\<forall>x\<in>set w. isKwChar x)" using searchRx_good Cons.prems(2) by simp
    moreover have "a = schuffnersDots \<or> a = w" using Cons.prems(1) Some by (auto split: if_splits)
    ultimately show ?thesis by blast
  qed
qed

lemma hasClose_has_brace: "hasClose x \<Longrightarrow> CHR ''}'' \<in> set x"
  by (induction x rule: hasClose.induct) auto

lemma keywordAnchor_props:
  assumes "keywordAnchor patterns s = Some a"
  shows "\<not> hasClose (a @ ''}'') \<and> length (tokens a) \<le> 2"
proof -
  from keywordAnchor_good [OF assms patterns_good]
  consider "a = schuffnersDots" | "a \<noteq> []" "\<forall>x\<in>set a. isKwChar x" by blast
  then show ?thesis
  proof cases
    case 1
    have "\<not> hasClose (schuffnersDots @ ''}'')" by (simp add: schuffnersDots_def)
    moreover have "length (tokens schuffnersDots) = 2" by code_simp
    ultimately show ?thesis using 1 by simp
  next
    case 2
    then have p: "\<forall>x\<in>set a. \<not> isSpace x" "CHR ''}'' \<notin> set a" using isKwChar_plain by blast+
    have "\<not> hasClose a" using p(2) hasClose_has_brace by blast
    moreover have "last a \<noteq> CHR ''}''" using 2(1) p(2) last_in_set by metis
    ultimately have "\<not> hasClose (a @ ''}'')" by (simp add: hasClose_snoc_close)
    moreover have "tokens a = [a]" using 2(1) p(1) by (rule tokens_word)
    ultimately show ?thesis by simp
  qed
qed

section \<open>What the keyword matcher finds\<close>

lemma prevOf_Nil [simp]: "prevOf prev [] = prev"
  by (simp add: prevOf_def)

lemma prevOf_Cons: "prevOf prev (x # a) = prevOf (Some x) a"
  by (simp add: prevOf_def)

lemma prevOf_snoc [simp]: "prevOf prev (a @ [x]) = Some x"
  by (simp add: prevOf_def)

lemma matchRx_sound:
  "matchRx ps prev b = Some w \<Longrightarrow>
     prefix w b \<and> map toLower w \<in> set (map (map toLower) (rxForms ps))"
proof (induction ps prev b arbitrary: w rule: matchRx.induct)
  case (1 prev s)
  then show ?case by simp
next
  case (2 ps prev s)
  from 2(2) have "wordBoundary prev s" "matchRx ps prev s = Some w" by (simp_all split: if_splits)
  from 2(1) [OF this] show ?case by simp
next
  case (3 c ps prev)
  from 3(1) show ?case by simp
next
  case (4 c ps prev x xs)
  from 4(2) have e: "ciEq c x" by (simp split: if_splits)
  with 4(2) obtain w' where w': "matchRx ps (Some x) xs = Some w'" "w = x # w'"
    by auto
  from 4(1) [OF e w'(1)] have "prefix w' xs"
    "map toLower w' \<in> set (map (map toLower) (rxForms ps))" by simp_all
  then show ?case using e w'(2) by (auto simp: ciEq_def)
next
  case (5 c ps prev)
  from 5(2) have "matchRx ps prev [] = Some w" by simp
  from 5(1) [OF this] show ?case by auto
next
  case (6 c ps prev x xs)
  show ?case
  proof (cases "ciEq c x \<and> matchRx ps (Some x) xs \<noteq> None")
    case True
    then obtain w' where w': "matchRx ps (Some x) xs = Some w'" by auto
    then have w: "w = x # w'" using 6(3) True by simp
    from True have e: "ciEq c x" by simp
    from 6(1) [OF e w'] have "prefix w' xs"
      "map toLower w' \<in> set (map (map toLower) (rxForms ps))" by simp_all
    then show ?thesis using e w by (auto simp: ciEq_def)
  next
    case False
    then have n: "(if ciEq c x then map_option ((#) x) (matchRx ps (Some x) xs) else None) = None"
      by auto
    then have "matchRx ps prev (x # xs) = Some w" using 6(3) by simp
    from 6(2) [OF n this] show ?thesis by auto
  qed
qed

lemma matchRx_end_boundary:
  "matchRx (ps @ [WB]) prev b = Some w \<Longrightarrow> wordBoundary (prevOf prev w) (drop (length w) b)"
proof (induction ps arbitrary: prev b w)
  case Nil
  then show ?case by (simp split: if_splits)
next
  case (Cons p ps)
  show ?case
  proof (cases p)
    case WB
    then have "matchRx (ps @ [WB]) prev b = Some w" using Cons.prems by (simp split: if_splits)
    then show ?thesis by (rule Cons.IH)
  next
    case (Req c)
    then obtain x xs where b: "b = x # xs" using Cons.prems by (cases b) auto
    then obtain w' where w': "matchRx (ps @ [WB]) (Some x) xs = Some w'" "w = x # w'"
      using Cons.prems Req by (auto split: if_splits)
    from Cons.IH [OF w'(1)] show ?thesis using b w'(2) by (simp add: prevOf_Cons)
  next
    case (Opt c)
    show ?thesis
    proof (cases b)
      case Nil
      then have "matchRx (ps @ [WB]) prev b = Some w" using Cons.prems Opt by simp
      then show ?thesis by (rule Cons.IH)
    next
      case (Cons x xs)
      show ?thesis
      proof (cases "ciEq c x \<and> matchRx (ps @ [WB]) (Some x) xs \<noteq> None")
        case True
        then obtain w' where w': "matchRx (ps @ [WB]) (Some x) xs = Some w'" by auto
        then have w: "w = x # w'" using Cons.prems Opt Cons True by simp
        from Cons.IH [OF w'] show ?thesis using Cons w by (simp add: prevOf_Cons)
      next
        case False
        then have "(if ciEq c x then map_option ((#) x) (matchRx (ps @ [WB]) (Some x) xs) else None) = None"
          by auto
        then have "matchRx (ps @ [WB]) prev b = Some w" using Cons.prems Opt Cons by simp
        then show ?thesis by (rule \<open>\<And>prev b w. matchRx (ps @ [WB]) prev b = Some w \<Longrightarrow> wordBoundary (prevOf prev w) (drop (length w) b)\<close>)
      qed
    qed
  qed
qed

lemma searchRx_Some:
  "searchRx ps prev s = Some w \<Longrightarrow>
     \<exists>a b. s = a @ b \<and> matchRx ps (prevOf prev a) b = Some w"
proof (induction s arbitrary: prev)
  case Nil
  from Nil have "matchRx ps prev [] = Some w" by simp
  then have "[] = [] @ [] \<and> matchRx ps (prevOf prev []) [] = Some w" by simp
  then show ?case by (intro exI)
next
  case (Cons x xs)
  show ?case
  proof (cases "matchRx ps prev (x # xs)")
    case (Some w')
    then have "matchRx ps prev (x # xs) = Some w" using Cons.prems by simp
    then have "x # xs = [] @ (x # xs) \<and> matchRx ps (prevOf prev []) (x # xs) = Some w"
      by simp
    then show ?thesis by (intro exI)
  next
    case None
    then have "searchRx ps (Some x) xs = Some w" using Cons.prems by simp
    from Cons.IH [OF this] obtain a b where ab: "xs = a @ b" "matchRx ps (prevOf (Some x) a) b = Some w"
      by (elim exE conjE)
    have "x # xs = (x # a) @ b \<and> matchRx ps (prevOf prev (x # a)) b = Some w"
      using ab by (simp add: prevOf_Cons)
    then show ?thesis by (intro exI)
  qed
qed

lemma searchRx_None:
  "searchRx ps prev s = None \<Longrightarrow> s = a @ b \<Longrightarrow> matchRx ps (prevOf prev a) b = None"
proof (induction s arbitrary: prev a)
  case Nil
  then show ?case by simp
next
  case (Cons x xs)
  from Cons.prems(1) have m: "matchRx ps prev (x # xs) = None" and s: "searchRx ps (Some x) xs = None"
    by (auto split: option.splits)
  show ?case
  proof (cases a)
    case Nil
    then show ?thesis using m Cons.prems(2) by simp
  next
    case (Cons y a')
    then have "xs = a' @ b" "y = x" using Cons.prems(2) by simp_all
    from Cons.IH [OF s this(1)] show ?thesis using Cons \<open>y = x\<close> by (simp add: prevOf_Cons)
  qed
qed

lemma isWordChar_toLower: "isWordChar (toLower x) = isWordChar x"
proof -
  from toLower_cases [of x] show ?thesis
  proof
    assume "toLower x = x"
    then show ?thesis by simp
  next
    assume a: "x \<in> set ''ABCDEFGHIJKLMNOPQRSTUVWXYZ'' \<and> toLower x \<in> set ''abcdefghijklmnopqrstuvwxyz''"
    then have "isWordChar x" "isWordChar (toLower x)" by (simp_all only: isWordChar_alt simp_thms)
    then show ?thesis by simp
  qed
qed

lemma matchRx_lit:
  "matchRx (lit k @ ps) prev b \<noteq> None \<longleftrightarrow>
     (\<exists>b1 b2. b = b1 @ b2 \<and> map toLower b1 = map toLower k \<and> matchRx ps (prevOf prev b1) b2 \<noteq> None)"
proof (induction k arbitrary: prev b)
  case Nil
  then show ?case by (simp add: lit_def)
next
  case (Cons c k)
  show ?case
  proof (cases b)
    case Nil
    then show ?thesis by (simp add: lit_def)
  next
    case b: (Cons x xs)
    have 1: "matchRx (lit (c # k) @ ps) prev b \<noteq> None
              \<longleftrightarrow> ciEq c x \<and> matchRx (lit k @ ps) (Some x) xs \<noteq> None"
      using b by (simp add: lit_def)
    have 2: "(\<exists>b1 b2. b = b1 @ b2 \<and> map toLower b1 = map toLower (c # k)
                 \<and> matchRx ps (prevOf prev b1) b2 \<noteq> None)
              \<longleftrightarrow> ciEq c x \<and> (\<exists>b1 b2. xs = b1 @ b2 \<and> map toLower b1 = map toLower k
                 \<and> matchRx ps (prevOf (Some x) b1) b2 \<noteq> None)"
    proof
      assume "\<exists>b1 b2. b = b1 @ b2 \<and> map toLower b1 = map toLower (c # k)
                 \<and> matchRx ps (prevOf prev b1) b2 \<noteq> None"
      then obtain b1 b2 where h: "b = b1 @ b2" "map toLower b1 = map toLower (c # k)"
        "matchRx ps (prevOf prev b1) b2 \<noteq> None" by (elim exE conjE)
      from h(2) obtain y b1' where b1: "b1 = y # b1'" by (cases b1) auto
      then have "y = x" "xs = b1' @ b2" "toLower y = toLower c" "map toLower b1' = map toLower k"
        using h(1,2) b by simp_all
      moreover have "matchRx ps (prevOf (Some x) b1') b2 \<noteq> None"
        using h(3) b1 \<open>y = x\<close> by (simp add: prevOf_Cons)
      ultimately show "ciEq c x \<and> (\<exists>b1 b2. xs = b1 @ b2 \<and> map toLower b1 = map toLower k
                 \<and> matchRx ps (prevOf (Some x) b1) b2 \<noteq> None)"
        unfolding ciEq_def by metis
    next
      assume "ciEq c x \<and> (\<exists>b1 b2. xs = b1 @ b2 \<and> map toLower b1 = map toLower k
                 \<and> matchRx ps (prevOf (Some x) b1) b2 \<noteq> None)"
      then obtain b1 b2 where h: "ciEq c x" "xs = b1 @ b2" "map toLower b1 = map toLower k"
        "matchRx ps (prevOf (Some x) b1) b2 \<noteq> None" by (elim exE conjE)
      have "b = (x # b1) @ b2 \<and> map toLower (x # b1) = map toLower (c # k)
              \<and> matchRx ps (prevOf prev (x # b1)) b2 \<noteq> None"
        using h b by (simp add: prevOf_Cons ciEq_def)
      then show "\<exists>b1 b2. b = b1 @ b2 \<and> map toLower b1 = map toLower (c # k)
                 \<and> matchRx ps (prevOf prev b1) b2 \<noteq> None"
        by (intro exI)
    qed
    show ?thesis unfolding 1 2 using Cons.IH [of "Some x" xs] by simp
  qed
qed

lemma testRx_iff:
  "testRx ps s \<longleftrightarrow> (\<exists>a b. s = a @ b \<and> matchRx ps (prevOf None a) b \<noteq> None)"
proof
  assume "testRx ps s"
  then obtain w where "searchRx ps None s = Some w" by (auto simp: testRx_def)
  from searchRx_Some [OF this] obtain a b where "s = a @ b" "matchRx ps (prevOf None a) b = Some w"
    by (elim exE conjE)
  then have "s = a @ b \<and> matchRx ps (prevOf None a) b \<noteq> None" by simp
  then show "\<exists>a b. s = a @ b \<and> matchRx ps (prevOf None a) b \<noteq> None" by (intro exI)
next
  assume "\<exists>a b. s = a @ b \<and> matchRx ps (prevOf None a) b \<noteq> None"
  then obtain a b where h: "s = a @ b" "matchRx ps (prevOf None a) b \<noteq> None" by (elim exE conjE)
  show "testRx ps s"
  proof (rule ccontr)
    assume "\<not> testRx ps s"
    then have "searchRx ps None s = None" by (simp add: testRx_def)
    from searchRx_None [OF this h(1)] h(2) show False by simp
  qed
qed

lemma sublist_map_iff:
  "sublist k (map f s) \<longleftrightarrow> (\<exists>a b1 b2. s = a @ b1 @ b2 \<and> map f b1 = k)"
proof
  assume "sublist k (map f s)"
  then obtain p q where "map f s = p @ k @ q" by (auto simp: sublist_def)
  then have "\<exists>a r. s = a @ r \<and> p = map f a \<and> k @ q = map f r"
    by (simp only: map_eq_append_conv)
  then obtain a r where a: "s = a @ r" "k @ q = map f r" by (elim exE conjE)
  from a(2) have "map f r = k @ q" by simp
  then have "\<exists>b1 b2. r = b1 @ b2 \<and> k = map f b1 \<and> q = map f b2"
    by (simp only: map_eq_append_conv)
  then obtain b1 b2 where "r = b1 @ b2" "map f b1 = k" by (elim exE conjE) simp
  then have "s = a @ b1 @ b2 \<and> map f b1 = k" using a(1) by simp
  then show "\<exists>a b1 b2. s = a @ b1 @ b2 \<and> map f b1 = k" by (intro exI)
next
  assume "\<exists>a b1 b2. s = a @ b1 @ b2 \<and> map f b1 = k"
  then obtain a b1 b2 where "s = a @ b1 @ b2" "map f b1 = k" by (elim exE conjE)
  then have "map f s = map f a @ k @ map f b2" by simp
  then show "sublist k (map f s)" unfolding sublist_def by (intro exI)
qed

lemma matchRx_opts_tail: "matchRx [Opt c] prev b \<noteq> None"
  by (cases b) auto

lemma testRx_lit:
  assumes "ps = [] \<or> (\<exists>c. ps = [Opt c])"
  shows "testRx (lit k @ ps) s \<longleftrightarrow> sublist (map toLower k) (map toLower s)"
proof -
  have t: "matchRx ps prev b \<noteq> None" for prev b
    using assms matchRx_opts_tail by auto
  have "testRx (lit k @ ps) s \<longleftrightarrow>
          (\<exists>a b. s = a @ b \<and> (\<exists>b1 b2. b = b1 @ b2 \<and> map toLower b1 = map toLower k))"
    unfolding testRx_iff matchRx_lit using t by simp
  also have "\<dots> \<longleftrightarrow> (\<exists>a b1 b2. s = a @ b1 @ b2 \<and> map toLower b1 = map toLower k)"
    by blast
  finally show ?thesis unfolding sublist_map_iff .
qed

lemma testRx_schuffner: "testRx (lit ''Schuffner'') w \<longleftrightarrow> sublist ''schuffner'' (map toLower w)"
proof -
  have "map toLower ''Schuffner'' = ''schuffner''" by (simp add: toLower_def)
  then show ?thesis using testRx_lit [of "[]" "''Schuffner''" w] by simp
qed

lemma testRx_dots:
  "testRx (lit ''dot'' @ [Opt CHR ''s'']) s \<longleftrightarrow> sublist ''dot'' (map toLower s)"
proof -
  have "map toLower ''dot'' = ''dot''" by (simp add: toLower_def)
  then show ?thesis using testRx_lit [of "[Opt CHR ''s'']" "''dot''" s] by simp
qed

lemma keywordAnchor_first:
  assumes "\<forall>r\<in>set before. searchRx r None s = None" "searchRx re None s = Some w"
  shows "keywordAnchor (before @ re # after) s
           = Some (if sublist ''schuffner'' (map toLower w) \<and> sublist ''dot'' (map toLower s)
                   then schuffnersDots else w)"
  using assms(1)
proof (induction before)
  case Nil
  then show ?case using assms(2) by (simp add: testRx_schuffner testRx_dots)
next
  case (Cons r before)
  then show ?case by simp
qed

lemma keywordAnchor_None: "keywordAnchor ps s = None \<longleftrightarrow> (\<forall>r\<in>set ps. searchRx r None s = None)"
  by (induction ps) (auto split: option.splits)

lemma patterns_forms:
  "\<forall>re\<in>set patterns. set (map (map toLower) (rxForms re)) \<subseteq> set keywordForms"
  by (simp add: patterns_def kw_def lit_def keywordForms_def toLower_def)

lemma keywordForms_ends:
  "\<forall>f\<in>set keywordForms. f \<noteq> [] \<and> isWordChar (hd f) \<and> isWordChar (last f)"
  by (simp add: keywordForms_def isWordChar_def)

lemma patterns_kw: "\<forall>re\<in>set patterns. \<exists>ps. re = WB # ps @ [WB]"
  by (simp add: patterns_def kw_def)

lemma lower_ends:
  assumes "map toLower w = f" "f \<noteq> []" "isWordChar (hd f)" "isWordChar (last f)"
  shows "w \<noteq> [] \<and> isWordChar (hd w) \<and> isWordChar (last w)"
proof -
  have w: "w \<noteq> []" using assms(1,2) by auto
  then have "hd f = toLower (hd w)" "last f = toLower (last w)"
    using assms(1) by (auto simp: hd_map last_map)
  then show ?thesis using w assms(3,4) by (simp add: isWordChar_toLower)
qed

lemma wholeWord_match:
  assumes m: "matchRx (WB # ps @ [WB]) (prevOf None a) b = Some w"
    and f: "map toLower w \<in> set keywordForms"
  shows "\<exists>post. b = w @ post \<and> (a = [] \<or> \<not> isWordChar (last a))
           \<and> (post = [] \<or> \<not> isWordChar (hd post))"
proof -
  from f keywordForms_ends have "map toLower w \<noteq> []" "isWordChar (hd (map toLower w))"
    "isWordChar (last (map toLower w))" by blast+
  with lower_ends [OF refl] have w: "w \<noteq> []" "isWordChar (hd w)" "isWordChar (last w)" by blast+
  from m have wb: "wordBoundary (prevOf None a) b" and m': "matchRx (ps @ [WB]) (prevOf None a) b = Some w"
    by (simp_all split: if_splits)
  from matchRx_sound [OF m'] obtain post where b: "b = w @ post" by (auto simp: prefix_def)
  from matchRx_end_boundary [OF m'] have eb: "wordBoundary (prevOf (prevOf None a) w) post"
    using b by simp
  have "nextChar b = Some (hd w)" using b w(1) by (cases w) (simp_all add: nextChar_def)
  then have "\<not> isWordOpt (prevOf None a)" using wb w(2) by (simp add: wordBoundary_def isWordOpt_def)
  then have 1: "a = [] \<or> \<not> isWordChar (last a)" by (auto simp: prevOf_def isWordOpt_def)
  have "prevOf (prevOf None a) w = Some (last w)" using w(1) by (simp add: prevOf_def)
  then have "\<not> isWordOpt (nextChar post)" using eb w(3) by (simp add: wordBoundary_def isWordOpt_def)
  then have 2: "post = [] \<or> \<not> isWordChar (hd post)"
    by (cases post) (simp_all add: nextChar_def isWordOpt_def)
  show ?thesis using b 1 2 by blast
qed

lemma pattern_match_sound:
  assumes "re \<in> set patterns" "searchRx re None s = Some w"
  shows "(\<exists>pre post. s = pre @ w @ post \<and> (pre = [] \<or> \<not> isWordChar (last pre))
            \<and> (post = [] \<or> \<not> isWordChar (hd post)))
         \<and> map toLower w \<in> set (map (map toLower) (rxForms re))
         \<and> map toLower w \<in> set keywordForms"
proof -
  from searchRx_Some [OF assms(2)] obtain a b where ab: "s = a @ b"
    "matchRx re (prevOf None a) b = Some w" by (elim exE conjE)
  from matchRx_sound [OF ab(2)] have f: "map toLower w \<in> set (map (map toLower) (rxForms re))"
    by simp
  then have k: "map toLower w \<in> set keywordForms" using patterns_forms assms(1) by blast
  from patterns_kw assms(1) obtain ps where "re = WB # ps @ [WB]" by blast
  with ab(2) have "matchRx (WB # ps @ [WB]) (prevOf None a) b = Some w" by simp
  from wholeWord_match [OF this k] obtain post where "b = w @ post"
    "a = [] \<or> \<not> isWordChar (last a)" "post = [] \<or> \<not> isWordChar (hd post)" by blast
  then have "s = a @ w @ post \<and> (a = [] \<or> \<not> isWordChar (last a))
            \<and> (post = [] \<or> \<not> isWordChar (hd post))" using ab(1) by simp
  then have "\<exists>pre post. s = pre @ w @ post \<and> (pre = [] \<or> \<not> isWordChar (last pre))
            \<and> (post = [] \<or> \<not> isWordChar (hd post))" by (intro exI)
  then show ?thesis using f k by simp
qed

section \<open>Spans and their closing braces\<close>

lemma trim_sublist: "sublist (trim x) x"
proof -
  let ?y = "dropWhile isSpace x"
  have "suffix (dropWhile isSpace (rev ?y)) (rev ?y)" by (rule suffix_dropWhile)
  then have "prefix (trim x) ?y"
    by (simp add: trim_def prefix_def suffix_def) (metis rev_append rev_rev_ident)
  moreover have "suffix ?y x" by (rule suffix_dropWhile)
  ultimately show ?thesis
    by (meson prefix_imp_sublist sublist_order.order_trans suffix_imp_sublist)
qed

lemma span_elim:
  assumes "span l s = Some ((n, inner), rest)"
  shows "\<exists>r. opener l s = Some (n, r) \<and> r = inner @ ''}}'' @ rest \<and> \<not> hasClose (inner @ ''}'')"
proof -
  from assms obtain r where o: "opener l s = Some (n, r)" and f: "findClose r = Some (inner, rest)"
    by (auto simp: span_def split: option.splits)
  from findClose_Some [OF f] o show ?thesis by blast
qed

lemma span_strict_elim:
  assumes "span False s = Some ((n, inner), rest)"
  shows "s = ''{{c'' @ n @ ''::'' @ inner @ ''}}'' @ rest" "n \<noteq> []" "\<forall>x\<in>set n. isDigit x"
    "\<not> hasClose (inner @ ''}'')"
proof -
  from span_elim [OF assms] obtain r where o: "opener False s = Some (n, r)"
    and r: "r = inner @ ''}}'' @ rest" and h: "\<not> hasClose (inner @ ''}'')" by blast
  from opener_strict_elim [OF o] r show "s = ''{{c'' @ n @ ''::'' @ inner @ ''}}'' @ rest"
    "n \<noteq> []" "\<forall>x\<in>set n. isDigit x" by simp_all
  show "\<not> hasClose (inner @ ''}'')" by (rule h)
qed

lemma span_strict_intro:
  assumes "n \<noteq> []" "\<forall>x\<in>set n. isDigit x" "findClose r = Some (inner, rest)"
  shows "span False (''{{c'' @ n @ ''::'' @ r) = Some ((n, inner), rest)"
proof -
  have "opener False (''{{'' @ [] @ ''c'' @ n @ [] @ ''::'' @ r) = Some (n, r)"
    using assms(1,2) by (intro opener_intro) auto
  then show ?thesis using assms(3) by (simp add: span_def)
qed

lemma hasClose_close: "hasClose (x @ ''}}'' @ y)"
  by (simp add: hasClose_append)

lemma span_hasClose: "span l s = Some (g, rest) \<Longrightarrow> hasClose s"
proof -
  assume a: "span l s = Some (g, rest)"
  obtain n inner where g: "g = (n, inner)" by (cases g)
  from span_elim [OF a [unfolded g]] obtain r where o: "opener l s = Some (n, r)"
    and r: "r = inner @ ''}}'' @ rest" by blast
  have "hasClose r" unfolding r by (rule hasClose_close)
  moreover have "suffix r s" using o by (rule opener_suffix)
  ultimately show ?thesis using hasClose_sublist suffix_imp_sublist by blast
qed

lemma span_shorter: "span l s = Some (g, rest) \<Longrightarrow> length rest < length s"
proof -
  assume a: "span l s = Some (g, rest)"
  obtain n inner where g: "g = (n, inner)" by (cases g)
  from span_elim [OF a [unfolded g]] obtain r where o: "opener l s = Some (n, r)"
    and r: "r = inner @ ''}}'' @ rest" by blast
  have "length r < length s" using o by (rule opener_shorter)
  then show ?thesis using r by simp
qed

lemma scan_no_close: "\<not> hasClose x \<Longrightarrow> scan (span l) x = map Lit x"
proof (rule scan_all_Lit, intro allI impI)
  fix b assume h: "\<not> hasClose x" and b: "suffix b x"
  show "span l b = None"
  proof (cases "span l b")
    case None
    then show ?thesis .
  next
    case (Some a)
    obtain g rest where "a = (g, rest)" by (cases a)
    then have "hasClose b" using Some span_hasClose by blast
    then have "hasClose x" using b hasClose_sublist suffix_imp_sublist by blast
    then show ?thesis using h by simp
  qed
qed

lemma sameShape_map_Lit:
  "sameShape qs (map Lit x :: 'a piece list) \<Longrightarrow> (qs :: 'a piece list) = map Lit x"
proof (induction x arbitrary: qs)
  case Nil
  then show ?case by simp
next
  case (Cons c x)
  have "sameShape qs (Lit c # map Lit x :: 'a piece list)" using Cons.prems by simp
  from sameShape_Lit_right [OF this] obtain qs' where
    q: "qs = Lit c # qs'" "sameShape qs' (map Lit x :: 'a piece list)" by blast
  from Cons.IH [OF q(2)] show ?case using q(1) by simp
qed

lemma render_limited: "render (map (limited m) ps) = concat (map (limitSpan m) ps)"
proof (induction ps)
  case Nil
  then show ?case by simp
next
  case (Cons p ps)
  then show ?case by (cases p) (simp_all add: limitSpan_def)
qed

lemma sameShape_limited: "sameShape (map (limited m) ps) ps"
proof (induction ps)
  case Nil
  then show ?case by simp
next
  case (Cons p ps)
  then show ?case by (cases p) simp_all
qed

lemma limitSpan_brace:
  "\<exists>t. limitSpan m (Hit (''{{c'' @ n @ ''::'' @ inner @ ''}}'') (n, inner)) = CHR ''{'' # CHR ''{'' # t"
  by (simp add: limitSpan_def Let_def)

lemma scan_Hit_strict:
  "Hit f g \<in> set (scan (span False) x) \<Longrightarrow>
   f = ''{{c'' @ fst g @ ''::'' @ snd g @ ''}}''"
proof (induction "span False" x rule: scan.induct)
  case 1
  then show ?case by simp
next
  case (2 c cs)
  show ?case
  proof (cases "span False (c # cs)")
    case None
    then show ?thesis using 2(1) 2(4) by simp
  next
    case (Some a)
    obtain g' rest where a: "a = (g', rest)" by (cases a)
    obtain n inner where g': "g' = (n, inner)" by (cases g')
    have l: "length rest < length (c # cs)" using Some a span_shorter by blast
    from span_strict_elim(1) [OF Some [unfolded a g']]
    have e: "c # cs = (''{{c'' @ n @ ''::'' @ inner @ ''}}'') @ rest" by simp
    have "scan (span False) ((''{{c'' @ n @ ''::'' @ inner @ ''}}'') @ rest)
            = Hit (''{{c'' @ n @ ''::'' @ inner @ ''}}'') g' # scan (span False) rest"
      using Some a e by (intro scan_append_Some) auto
    then have s: "scan (span False) (c # cs)
            = Hit (''{{c'' @ n @ ''::'' @ inner @ ''}}'') g' # scan (span False) rest"
      using e by simp
    from 2(4) [unfolded s] have "(f = ''{{c'' @ n @ ''::'' @ inner @ ''}}'' \<and> g = g')
        \<or> Hit f g \<in> set (scan (span False) rest)" by auto
    then show ?thesis
    proof
      assume "f = ''{{c'' @ n @ ''::'' @ inner @ ''}}'' \<and> g = g'"
      then show ?thesis using g' by simp
    next
      assume "Hit f g \<in> set (scan (span False) rest)"
      then show ?thesis using 2(2) [OF Some a [symmetric] l] by simp
    qed
  qed
qed

lemma limited_brace:
  "Hit f g \<in> set (map (limited m) (scan (span False) x)) \<Longrightarrow> f \<noteq> [] \<and> hd f = CHR ''{''"
proof -
  assume "Hit f g \<in> set (map (limited m) (scan (span False) x))"
  then obtain p where p: "p \<in> set (scan (span False) x)" "limited m p = Hit f g" by auto
  from p(2) obtain f0 where f0: "p = Hit f0 g" "f = limitSpan m (Hit f0 g)" by (cases p) auto
  then have "f0 = ''{{c'' @ fst g @ ''::'' @ snd g @ ''}}''" using p(1) scan_Hit_strict by blast
  then have "\<exists>t. f = CHR ''{'' # CHR ''{'' # t"
    using f0(2) limitSpan_brace [of m "fst g" "snd g"] by simp
  then show ?thesis by auto
qed

lemma scan_append:
  assumes "\<forall>b. suffix b pre \<and> b \<noteq> [] \<longrightarrow>
            (case m b of
               None \<Rightarrow> m (b @ x) = None
             | Some (g, rest) \<Rightarrow> m (b @ x) = Some (g, rest @ x) \<and> suffix rest b \<and> rest \<noteq> b)"
  shows "scan m (pre @ x) = scan m pre @ scan m x"
  using assms
proof (induction m pre rule: scan.induct)
  case (1 m)
  then show ?case by simp
next
  case (2 m c cs)
  have tl: "\<forall>b. suffix b cs \<and> b \<noteq> [] \<longrightarrow>
            (case m b of
               None \<Rightarrow> m (b @ x) = None
             | Some (g, rest) \<Rightarrow> m (b @ x) = Some (g, rest @ x) \<and> suffix rest b \<and> rest \<noteq> b)"
    using 2(4) by (simp add: suffix_Cons)
  have here: "case m (c # cs) of
               None \<Rightarrow> m ((c # cs) @ x) = None
             | Some (g, rest) \<Rightarrow> m ((c # cs) @ x) = Some (g, rest @ x) \<and> suffix rest (c # cs)
                 \<and> rest \<noteq> c # cs"
    using 2(4) by simp
  show ?case
  proof (cases "m (c # cs)")
    case None
    then have n: "m (c # (cs @ x)) = None" using here by simp
    have "scan m (cs @ x) = scan m cs @ scan m x" using 2(1) [OF None tl] .
    then show ?thesis using None n by simp
  next
    case (Some a)
    obtain g rest where a: "a = (g, rest)" by (cases a)
    from here Some a have h: "m ((c # cs) @ x) = Some (g, rest @ x)" "suffix rest (c # cs)"
      "rest \<noteq> c # cs" by simp_all
    from h(2) obtain f where f: "c # cs = f @ rest" by (auto simp: suffix_def)
    then have fne: "f \<noteq> []" using h(3) by auto
    have l: "length rest < length (c # cs)" using f fne by (metis length_append length_greater_0_conv less_add_same_cancel2)
    have rs: "\<forall>b. suffix b rest \<and> b \<noteq> [] \<longrightarrow>
            (case m b of
               None \<Rightarrow> m (b @ x) = None
             | Some (g, rest) \<Rightarrow> m (b @ x) = Some (g, rest @ x) \<and> suffix rest b \<and> rest \<noteq> b)"
      using 2(4) h(2) suffix_order.trans by blast
    have ih: "scan m (rest @ x) = scan m rest @ scan m x"
      using 2(2) [OF Some a [symmetric] l rs] .
    have "m (f @ rest) = Some (g, rest)" using Some a f by simp
    from scan_append_Some [of m f rest g, OF this fne]
    have s1: "scan m (c # cs) = Hit f g # scan m rest" using f by simp
    have "m (f @ (rest @ x)) = Some (g, rest @ x)" using h(1) f by simp
    from scan_append_Some [of m f "rest @ x" g, OF this fne]
    have s2: "scan m ((c # cs) @ x) = Hit f g # scan m (rest @ x)" using f by simp
    show ?thesis unfolding s2 s1 ih by simp
  qed
qed

lemma findClose_append:
  assumes "findClose r = Some (inner, rest)"
  shows "findClose (r @ x) = Some (inner, rest @ x)"
proof -
  from findClose_Some [OF assms] have "r = inner @ ''}}'' @ rest" "\<not> hasClose (inner @ ''}'')"
    by simp_all
  then show ?thesis using findClose_intro [of inner "rest @ x"] by simp
qed

lemma opener_strict_append:
  assumes "opener False b = Some (n, r)"
  shows "opener False (b @ x) = Some (n, r @ x)"
proof -
  from opener_strict_elim [OF assms] have b: "b = ''{{c'' @ n @ ''::'' @ r" and n: "n \<noteq> []"
    "\<forall>c\<in>set n. isDigit c" by simp_all
  have "opener False (''{{'' @ [] @ ''c'' @ n @ [] @ ''::'' @ (r @ x)) = Some (n, r @ x)"
    using n by (intro opener_intro) auto
  then show ?thesis using b by simp
qed

text \<open>A strict opener that begins in \<open>b\<close> and needs characters of the following text: the
  following text then does not begin with \<open>{{\<close>, and \<open>b\<close> does not end with \<open>}\<close>.\<close>

lemma opener_strict_straddle:
  assumes "opener False (b @ x) = Some (n, r)" "opener False b = None" "b \<noteq> []"
  shows "(\<forall>t. x \<noteq> CHR ''{'' # CHR ''{'' # t) \<and> last b \<noteq> CHR ''}''"
proof -
  from opener_strict_elim [OF assms(1)] have e: "b @ x = ''{{c'' @ n @ ''::'' @ r"
    and n: "n \<noteq> []" "\<forall>c\<in>set n. isDigit c" by simp_all
  define p where "p = ''{{c'' @ n @ ''::''"
  have pr: "p @ r = b @ x" using e by (simp add: p_def)
  have nd: "\<not> isDigit CHR ''{''" "\<not> isDigit CHR ''}''" by (simp_all add: isDigit_def)
  then have nn: "CHR ''{'' \<notin> set n" "CHR ''}'' \<notin> set n" using n(2) by blast+
  from pr have "\<exists>us. (p = b @ us \<and> us @ r = x) \<or> (p @ us = b \<and> r = us @ x)"
    unfolding append_eq_append_conv2 by blast
  then obtain us where "(p = b @ us \<and> us @ r = x) \<or> (p @ us = b \<and> r = us @ x)" by blast
  then have u: "p = b @ us" "us @ r = x"
  proof -
    assume d: "(p = b @ us \<and> us @ r = x) \<or> (p @ us = b \<and> r = us @ x)"
    have "\<not> (p @ us = b \<and> r = us @ x)"
    proof
      assume "p @ us = b \<and> r = us @ x"
      then have "b = ''{{'' @ [] @ ''c'' @ n @ [] @ ''::'' @ us" by (simp add: p_def)
      moreover have "opener False (''{{'' @ [] @ ''c'' @ n @ [] @ ''::'' @ us) = Some (n, us)"
        using n by (intro opener_intro) auto
      ultimately show False using assms(2) by simp
    qed
    with d show "p = b @ us" "us @ r = x" by blast+
  qed
  obtain b' where b: "b = CHR ''{'' # b'" using u(1) assms(3) by (cases b) (auto simp: p_def)
  then have b'us: "b' @ us = ''{c'' @ n @ ''::''" using u(1) by (simp add: p_def)
  have 1: "\<forall>t. x \<noteq> CHR ''{'' # CHR ''{'' # t"
  proof (intro allI notI)
    fix t assume x: "x = CHR ''{'' # CHR ''{'' # t"
    show False
    proof (cases us)
      case Nil
      then have "p @ [] = b \<and> r = [] @ x" using u by simp
      then have "b = ''{{'' @ [] @ ''c'' @ n @ [] @ ''::'' @ []" by (simp add: p_def)
      moreover have "opener False (''{{'' @ [] @ ''c'' @ n @ [] @ ''::'' @ []) = Some (n, [])"
        using n by (intro opener_intro) auto
      ultimately show False using assms(2) by simp
    next
      case (Cons y ys)
      then have y: "y = CHR ''{''" using u(2) x by simp
      show False
      proof (cases b')
        case Nil
        then have "us = ''{c'' @ n @ ''::''" using b'us by simp
        then have "x = ''{c'' @ n @ ''::'' @ r" using u(2) by simp
        then show False using x by simp
      next
        case (Cons z zs)
        then have "zs @ us = ''c'' @ n @ ''::''" using b'us by simp
        then have "set us \<subseteq> set (''c'' @ n @ ''::'')" by (metis set_append Un_upper2)
        then have "CHR ''{'' \<in> set (''c'' @ n @ ''::'')" using y \<open>us = y # ys\<close> by auto
        then show False using nn(1) by simp
      qed
    qed
  qed
  have 2: "last b \<noteq> CHR ''}''"
  proof
    assume "last b = CHR ''}''"
    then have "CHR ''}'' \<in> set b" using assms(3) last_in_set by metis
    then have "CHR ''}'' \<in> set p" using u(1) by simp
    then show False using nn(2) by (simp add: p_def)
  qed
  show ?thesis using 1 2 by simp
qed

lemma span_strict_append:
  assumes ok: "\<forall>n r. opener False b = Some (n, r) \<longrightarrow> findClose r \<noteq> None"
    and x: "(\<exists>t. x = CHR ''{'' # CHR ''{'' # t) \<or> (b \<noteq> [] \<and> last b = CHR ''}'')"
    and bne: "b \<noteq> []"
  shows "case span False b of
           None \<Rightarrow> span False (b @ x) = None
         | Some (g, rest) \<Rightarrow> span False (b @ x) = Some (g, rest @ x) \<and> suffix rest b \<and> rest \<noteq> b"
proof (cases "opener False b")
  case None
  have "opener False (b @ x) = None"
  proof (cases "opener False (b @ x)")
    case (Some a)
    obtain n r where "a = (n, r)" by (cases a)
    with Some opener_strict_straddle [OF _ None bne, of x n r] x show ?thesis by auto
  qed simp
  then show ?thesis using None by (simp add: span_def)
next
  case (Some a)
  obtain n r where a: "a = (n, r)" by (cases a)
  with Some ok obtain inner rest where f: "findClose r = Some (inner, rest)" by auto
  have s: "span False b = Some ((n, inner), rest)" using Some a f by (simp add: span_def)
  have "opener False (b @ x) = Some (n, r @ x)" using Some a opener_strict_append by simp
  moreover have "findClose (r @ x) = Some (inner, rest @ x)" using f by (rule findClose_append)
  ultimately have 1: "span False (b @ x) = Some ((n, inner), rest @ x)" by (simp add: span_def)
  have "length rest < length b" using s span_shorter by blast
  moreover have "suffix rest r" using findClose_Some [OF f] by (auto simp: suffix_def)
  moreover have "suffix r b" using Some a opener_suffix by blast
  ultimately have "suffix rest b \<and> rest \<noteq> b" using suffix_order.trans by auto
  then show ?thesis using s 1 by simp
qed




lemma loose_span_no_strict_opener:
  assumes "\<forall>x\<in>set w1. isSpace x" "\<forall>x\<in>set w2. isSpace x" "w1 @ w2 \<noteq> []"
    and "n \<noteq> []" "\<forall>x\<in>set n. isDigit x"
    and "\<forall>b. suffix b content \<longrightarrow> opener False b = None"
    and "suffix b (''{{'' @ w1 @ ''c'' @ n @ w2 @ ''::'' @ content @ ''}}'')"
  shows "opener False b = None"
proof -
  let ?mid = "w1 @ ''c'' @ n @ w2 @ ''::''"
  let ?t = "''{{'' @ w1 @ ''c'' @ n @ w2 @ ''::'' @ content @ ''}}''"
  have 2: "opener False ?t = None"
    using assms(1-5) by (intro opener_strict_needs_no_space) auto
  have nb: "CHR ''{'' \<notin> set ?mid" using assms(1,2,5) brace_classes by auto
  have b: "suffix b ?t" using assms(7) .
  show ?thesis
  proof -
    let ?tail = "content @ ''}}''"
    have "suffix b (CHR ''{'' # CHR ''{'' # (?mid @ ?tail))" using b by simp
    then have 0: "b = ?t \<or> b = CHR ''{'' # ?mid @ ?tail \<or> suffix b (?mid @ ?tail)"
      by (auto simp: suffix_Cons)
    have "suffix b (?mid @ ?tail) \<longrightarrow>
            suffix b ?tail \<or> (\<exists>b0. suffix b0 ?mid \<and> b = b0 @ ?tail)"
      by (simp only: suffix_append) blast
    then have "suffix b (?mid @ ?tail) \<longrightarrow>
            suffix b ?tail \<or> (\<exists>b0. suffix b0 ?mid \<and> b = b0 @ ?tail \<and> b0 \<noteq> [])"
      by (metis append_Nil suffix_order.refl)
    with 0 consider (tail) "suffix b ?tail"
      | (mid) b0 where "suffix b0 ?mid" "b = b0 @ ?tail" "b0 \<noteq> []"
      | (second) "b = CHR ''{'' # ?mid @ ?tail"
      | (whole) "b = ?t"
      by blast
    then show ?thesis
    proof cases
      case tail
      then have "suffix b ''}}'' \<or> (\<exists>b'. suffix b' content \<and> b = b' @ ''}}'')"
        by (simp only: suffix_append) blast
      then consider "suffix b ''}}''" | b' where "suffix b' content" "b = b' @ ''}}''"
        by blast
      then show ?thesis
      proof cases
        case 1
        then have "b = [] \<or> hd b = CHR ''}''" by (auto simp: suffix_Cons)
        then show ?thesis by (intro opener_None_hd) auto
      next
        case 2
        then have "opener False b' = None" using assms(6) by blast
        then show ?thesis using opener_strict_append_close [of b'] 2(2)
          by (cases "opener False b") auto
      qed
    next
      case mid
      have "set b0 \<subseteq> set ?mid" using mid(1) by (rule set_mono_suffix)
      moreover have "hd b = hd b0" "hd b0 \<in> set b0" using mid(2,3) by simp_all
      ultimately have "hd b \<in> set ?mid" by auto
      then have "hd b \<noteq> CHR ''{''" using nb by metis
      moreover have "b \<noteq> []" using mid by simp
      ultimately show ?thesis by (intro opener_None_hd) auto
    next
      case second
      have "hd (?mid @ (content @ ''}}'')) \<in> set ?mid" by (cases w1) auto
      then have "hd (?mid @ (content @ ''}}'')) \<noteq> CHR ''{''" using nb by metis
      then show ?thesis unfolding second by (intro opener_None_second) simp
    next
      case whole
      then show ?thesis using 2 by simp
    qed
  qed
qed

lemma concat_limitSpan_scan:
  "enforceClozeWordLimit t m = concat (map (limitSpan m) (scan (span False) t))"
  by (simp add: enforceClozeWordLimit_def)

section \<open>A phrase inside a trimmed text\<close>

lemma dropWhile_middle:
  "m \<noteq> [] \<Longrightarrow> \<not> P (hd m) \<Longrightarrow> dropWhile P (pre @ m @ post) = dropWhile P pre @ m @ post"
  by (induction pre) (cases m, auto)

lemma trim_middle:
  assumes "m \<noteq> []" "\<not> isSpace (hd m)" "\<not> isSpace (last m)"
  shows "trim (pre @ m @ post) = dropWhile isSpace pre @ m @ rev (dropWhile isSpace (rev post))"
proof -
  have 1: "dropWhile isSpace (pre @ m @ post) = dropWhile isSpace pre @ m @ post"
    using assms(1,2) by (rule dropWhile_middle)
  have "rev (dropWhile isSpace pre @ m @ post) = rev post @ rev m @ rev (dropWhile isSpace pre)"
    by simp
  moreover have "dropWhile isSpace (rev post @ rev m @ rev (dropWhile isSpace pre))
      = dropWhile isSpace (rev post) @ rev m @ rev (dropWhile isSpace pre)"
    using assms(1,3) by (intro dropWhile_middle) (simp_all add: hd_rev)
  ultimately show ?thesis unfolding trim_def 1 by simp
qed

lemma last_dropWhile_keeps:
  "pre = [] \<or> \<not> Q (last pre) \<Longrightarrow> dropWhile P pre = [] \<or> \<not> Q (last (dropWhile P pre))"
  by (induction pre) (auto split: if_splits)

lemma schuffner_pattern_matches:
  assumes "a = [] \<or> \<not> isWordChar (last a)"
  shows "matchRx (kw (lit ''Schuffner'' @ [Opt (CHR 0x27), Req CHR ''s''])) (prevOf None a)
           (schuffnersDots @ '' are seen'' @ b) \<noteq> None"
proof -
  have "\<not> isWordOpt (prevOf None a)"
    using assms by (auto simp: isWordOpt_def prevOf_def)
  then show ?thesis
    by (simp add: kw_def lit_def schuffnersDots_def wordBoundary_def nextChar_def isWordOpt_def
        ciEq_def toLower_def isWordChar_def)
qed

lemma schuffner_forms:
  assumes "map toLower w \<in> set (map (map toLower) (rxForms (kw (lit ''Schuffner'' @ [Opt (CHR 0x27), Req CHR ''s'']))))"
  shows "sublist ''schuffner'' (map toLower w)"
proof -
  have "map toLower w = ''schuffner'' @ [CHR 0x27, CHR ''s''] \<or> map toLower w = ''schuffner'' @ ''s''"
    using assms by (simp add: kw_def lit_def toLower_def)
  then show ?thesis
    by (metis sublist_appendI append_Nil)
qed

lemma phrase_has_dot:
  "sublist ''dot'' (map toLower (a @ schuffnersDots @ '' are seen'' @ b))"
proof -
  have "map toLower (a @ schuffnersDots @ '' are seen'' @ b)
          = (map toLower a @ ''schuffner'' @ [CHR 0x27] @ ''s '') @ ''dot'' @ (''s are seen'' @ map toLower b)"
    by (simp add: schuffnersDots_def toLower_def)
  then show ?thesis by (simp only: sublist_appendI)
qed

section \<open>The keyword branch of pickAnchorWords\<close>



section \<open>capClozesToInput on cards whose input card has no cloze\<close>

lemma openerIndices_Nil: "openerIndices [] = []"
  by (simp add: openerIndices_def)

lemma capCard_no_openers: "openerIndices inCard = [] \<Longrightarrow> capCard inCard outCard = outCard"
  by (simp add: capCard_def)

text \<open>
  Claim C6. \<open>capClozesToInput\<close> joins, by the delimiter, one card per output card. An
  output card at a position beyond the last input card, or whose input card has no cloze
  opener, is returned unchanged; when that is so at every position the whole output text is
  returned unchanged. The output card \<open>{{c1::Plasmodium vivax}}\<close> against an input card
  without cloze is left as it is.
\<close>

theorem capClozesToInput_passthrough:
  "capClozesToInput outText inText delimiter
     = joinWith (delimOf delimiter) (capCards outText inText delimiter)
   \<and> length (capCards outText inText delimiter) = length (splitOn (delimOf delimiter) outText)
   \<and> (\<forall>i < length (splitOn (delimOf delimiter) outText).
        (length (splitOn (delimOf delimiter) inText) \<le> i \<or>
         openerIndices (splitOn (delimOf delimiter) inText ! i) = []) \<longrightarrow>
        capCards outText inText delimiter ! i = splitOn (delimOf delimiter) outText ! i)
   \<and> ((\<forall>i < length (splitOn (delimOf delimiter) outText).
        (length (splitOn (delimOf delimiter) inText) \<le> i \<or>
         openerIndices (splitOn (delimOf delimiter) inText ! i) = [])) \<longrightarrow>
        capClozesToInput outText inText delimiter = outText)
   \<and> capClozesToInput ''{{c1::Plasmodium vivax}}'' ''Plasmodium vivax causes malaria'' ''===CARD===''
       = ''{{c1::Plasmodium vivax}}''"
proof -
  let ?d = "delimOf delimiter"
  let ?out = "splitOn ?d outText"
  let ?inp = "splitOn ?d inText"
  let ?ok = "\<lambda>i. length ?inp \<le> i \<or> openerIndices (?inp ! i) = []"
  have len: "length (capCards outText inText delimiter) = length ?out"
    by (simp add: capCards_def Let_def)
  have nth: "capCards outText inText delimiter ! i = ?out ! i"
    if i: "i < length ?out" and e: "?ok i" for i
  proof -
    have "capCards outText inText delimiter ! i = capCard (cardAt ?inp i) (?out ! i)"
      using i by (simp add: capCards_def Let_def nth_enumerate_eq)
    moreover have "openerIndices (cardAt ?inp i) = []"
      using e by (auto simp: cardAt_def openerIndices_Nil)
    ultimately show ?thesis by (simp add: capCard_no_openers)
  qed
  have all: "capClozesToInput outText inText delimiter = outText"
    if "\<forall>i < length ?out. ?ok i"
  proof -
    have "capCards outText inText delimiter = ?out"
      using len nth that by (intro nth_equalityI) auto
    then show ?thesis
      by (simp add: capClozesToInput_def join_splitOn delimOf_not_Nil)
  qed
  have ex: "capClozesToInput ''{{c1::Plasmodium vivax}}'' ''Plasmodium vivax causes malaria'' ''===CARD===''
       = ''{{c1::Plasmodium vivax}}''"
    by code_simp
  have "capClozesToInput outText inText delimiter = joinWith ?d (capCards outText inText delimiter)"
    by (simp add: capClozesToInput_def)
  then show ?thesis using len nth all ex by blast
qed

theorem capClozesToInput_passthrough_witness:
  "capCards ''x===CARD==={{c1::Plasmodium vivax}}'' ''{{c1::malaria}} is bad'' '''' ! 1
     = ''{{c1::Plasmodium vivax}}''
   \<and> capClozesToInput ''x===CARD==={{c1::P. vivax}}'' ''no cloze here'' '''' = ''x===CARD==={{c1::P. vivax}}''"
proof -
  have a: "splitOn (delimOf '''') ''x===CARD==={{c1::Plasmodium vivax}}''
             = [''x'', ''{{c1::Plasmodium vivax}}'']"
    by code_simp
  have b: "splitOn (delimOf '''') ''{{c1::malaria}} is bad'' = [''{{c1::malaria}} is bad'']"
    by code_simp
  from capClozesToInput_passthrough
    [of "''x===CARD==={{c1::Plasmodium vivax}}''" "''{{c1::malaria}} is bad''" "''''"]
  have 1: "capCards ''x===CARD==={{c1::Plasmodium vivax}}'' ''{{c1::malaria}} is bad'' '''' ! 1
          = [''x'', ''{{c1::Plasmodium vivax}}''] ! 1"
    unfolding a b by simp
  have c: "splitOn (delimOf '''') ''x===CARD==={{c1::P. vivax}}'' = [''x'', ''{{c1::P. vivax}}'']"
    by code_simp
  have d: "splitOn (delimOf '''') ''no cloze here'' = [''no cloze here'']"
    by code_simp
  have e: "openerIndices ''no cloze here'' = []"
    by code_simp
  have h: "\<forall>i < length [''x'', ''{{c1::P. vivax}}''].
          length [''no cloze here''] \<le> i \<or> openerIndices ([''no cloze here''] ! i) = []"
    using e by (auto simp: less_Suc_eq)
  note t = capClozesToInput_passthrough
    [of "''x===CARD==={{c1::P. vivax}}''" "''no cloze here''" "''''"]
  have 2: "capClozesToInput ''x===CARD==={{c1::P. vivax}}'' ''no cloze here'' ''''
             = ''x===CARD==={{c1::P. vivax}}''"
    using t [THEN conjunct2, THEN conjunct2, THEN conjunct2, THEN conjunct1, unfolded c d] h
    by blast
  show ?thesis using 1 2 by simp
qed

section \<open>renumberClozesPerCard: dense indices in order of first appearance\<close>

lemma openerIndices_renumberCard:
  "openerIndices (renumberCard c)
     = map (\<lambda>x. showNat (rank (openerIndices c) x)) (openerIndices c)"
proof -
  have "hits (relabel Map.empty 1 (scan (opener True) c))
          = map (\<lambda>x. showNat (rank ([] @ hits (scan (opener True) c)) x)) (hits (scan (opener True) c))"
    by (rule hits_relabel) simp_all
  then show ?thesis by (simp add: openerIndices_def scan_renumberCard)
qed

lemma set_openerIndices_renumberCard:
  "set (openerIndices (renumberCard c)) = showNat ` {1..card (set (openerIndices c))}"
proof -
  have "ran Map.empty \<union> set (hits (relabel Map.empty 1 (scan (opener True) c)))
          = showNat ` {1..<1 + card (set (hits (scan (opener True) c)) - dom Map.empty)}"
    using set_hits_relabel [of 1 Map.empty "scan (opener True) c"] by simp
  moreover have "{1..<1 + card (set (openerIndices c))} = {1..card (set (openerIndices c))}"
    by auto
  ultimately show ?thesis by (simp add: openerIndices_def scan_renumberCard)
qed

lemma rank_first:
  assumes "i < length xs" "xs ! i \<notin> set (take i xs)"
  shows "rank xs (xs ! i) = Suc (card (set (take i xs)))"
proof -
  have "xs = take i xs @ xs ! i # drop (Suc i) xs" using assms(1) by (simp add: id_take_nth_drop)
  then have "rank xs (xs ! i) = rank (take i xs @ xs ! i # drop (Suc i) xs) (xs ! i)" by simp
  also have "\<dots> = Suc (card (set (take i xs)))" using assms(2) by (rule rank_append_new)
  finally show ?thesis .
qed

lemma renumberCard_idem: "renumberCard (renumberCard c) = renumberCard c"
proof -
  let ?ps = "scan (opener True) c"
  have "relabel Map.empty 1 (relabel Map.empty 1 ?ps) = relabel Map.empty 1 ?ps"
    by (rule relabel_idem) simp_all
  then have "renumberFrom Map.empty 1 (scan (opener True) (renumberCard c))
               = render (relabel Map.empty 1 ?ps)"
    by (simp add: scan_renumberCard renumberFrom_render)
  then show ?thesis by (simp add: renumberCard_def renumberFrom_render)
qed

lemma default_delim_ok: "\<forall>c\<in>set (delimOf []). \<not> isOpenerChar c"
  by (simp add: delimOf_def isOpenerChar_def isDigit_def)

text \<open>
  Claim C3, as amended. The output of \<open>renumberClozesPerCard\<close> is the join, by the
  delimiter, of the renumbered cards of the input; when no character of the delimiter is
  \<open>{\<close>, \<open>c\<close>, \<open>:\<close> or a digit, these are the delimiter-separated cards of the
  output. Within a renumbered card the set of indices is \<open>{1,...,K}\<close> (in decimal), \<open>K\<close>
  being the number of distinct original indices of the card; the first occurrence of an
  original index gets the number of distinct indices before it plus one, and every
  occurrence of the same original index gets the same new index. The card
  \<open>{{c5::malaria}} causes {{c5::fever}} and {{c8::jaundice}}\<close> becomes
  \<open>{{c1::malaria}} causes {{c1::fever}} and {{c2::jaundice}}\<close>.
\<close>

theorem renumber_dense_first_appearance:
  "renumberClozesPerCard text delimiter
     = joinWith (delimOf delimiter) (map renumberCard (splitOn (delimOf delimiter) text))
   \<and> ((\<forall>c\<in>set (delimOf delimiter). \<not> isOpenerChar c) \<longrightarrow>
        splitOn (delimOf delimiter) (renumberClozesPerCard text delimiter)
          = map renumberCard (splitOn (delimOf delimiter) text))
   \<and> set (openerIndices (renumberCard cardText))
        = showNat ` {1..card (set (openerIndices cardText))}
   \<and> length (openerIndices (renumberCard cardText)) = length (openerIndices cardText)
   \<and> (\<forall>i < length (openerIndices cardText).
        openerIndices cardText ! i \<notin> set (take i (openerIndices cardText)) \<longrightarrow>
        openerIndices (renumberCard cardText) ! i
          = showNat (Suc (card (set (take i (openerIndices cardText))))))
   \<and> (\<forall>i < length (openerIndices cardText). \<forall>j < length (openerIndices cardText).
        openerIndices cardText ! i = openerIndices cardText ! j \<longrightarrow>
        openerIndices (renumberCard cardText) ! i = openerIndices (renumberCard cardText) ! j)
   \<and> renumberClozesPerCard ''{{c5::malaria}} causes {{c5::fever}} and {{c8::jaundice}}'' ''===CARD===''
        = ''{{c1::malaria}} causes {{c1::fever}} and {{c2::jaundice}}''"
proof -
  let ?old = "openerIndices cardText"
  let ?new = "openerIndices (renumberCard cardText)"
  have n: "?new = map (\<lambda>x. showNat (rank ?old x)) ?old" by (rule openerIndices_renumberCard)
  have 1: "renumberClozesPerCard text delimiter
     = joinWith (delimOf delimiter) (map renumberCard (splitOn (delimOf delimiter) text))"
    by (simp add: renumberClozesPerCard_def Let_def)
  have 2: "(\<forall>c\<in>set (delimOf delimiter). \<not> isOpenerChar c) \<longrightarrow>
        splitOn (delimOf delimiter) (renumberClozesPerCard text delimiter)
          = map renumberCard (splitOn (delimOf delimiter) text)"
    using resplit_renumbered by blast
  have 3: "set ?new = showNat ` {1..card (set ?old)}" by (rule set_openerIndices_renumberCard)
  have 4: "length ?new = length ?old" using n by simp
  have 5: "\<forall>i < length ?old. ?old ! i \<notin> set (take i ?old) \<longrightarrow>
             ?new ! i = showNat (Suc (card (set (take i ?old))))"
    using n rank_first by simp
  have 6: "\<forall>i < length ?old. \<forall>j < length ?old. ?old ! i = ?old ! j \<longrightarrow> ?new ! i = ?new ! j"
    using n by simp
  have 7: "renumberClozesPerCard ''{{c5::malaria}} causes {{c5::fever}} and {{c8::jaundice}}'' ''===CARD===''
        = ''{{c1::malaria}} causes {{c1::fever}} and {{c2::jaundice}}''"
    by code_simp
  show ?thesis using 1 2 3 4 5 6 7 by blast
qed

theorem renumber_dense_first_appearance_witness:
  "splitOn (delimOf []) (renumberClozesPerCard ''{{c7::a}} b===CARD==={{ c9 ::d}}'' [])
       = [''{{c1::a}} b'', ''{{c1::d}}'']
   \<and> openerIndices ''{{c5::a}} {{c5::b}} {{c8::c}}'' = [''5'', ''5'', ''8'']
   \<and> openerIndices (renumberCard ''{{c5::a}} {{c5::b}} {{c8::c}}'') ! 0 = ''1''
   \<and> openerIndices (renumberCard ''{{c5::a}} {{c5::b}} {{c8::c}}'') ! 1 = ''1''
   \<and> openerIndices (renumberCard ''{{c5::a}} {{c5::b}} {{c8::c}}'') ! 2 = ''2''"
proof -
  note t = renumber_dense_first_appearance
    [of "''{{c7::a}} b===CARD==={{ c9 ::d}}''" "[]" "''{{c5::a}} {{c5::b}} {{c8::c}}''"]
  have a: "map renumberCard (splitOn (delimOf []) ''{{c7::a}} b===CARD==={{ c9 ::d}}'')
            = [''{{c1::a}} b'', ''{{c1::d}}'']"
    by code_simp
  have b: "splitOn (delimOf []) (renumberClozesPerCard ''{{c7::a}} b===CARD==={{ c9 ::d}}'' [])
       = [''{{c1::a}} b'', ''{{c1::d}}'']"
    using t [THEN conjunct2, THEN conjunct1] default_delim_ok a by simp
  have c: "openerIndices ''{{c5::a}} {{c5::b}} {{c8::c}}'' = [''5'', ''5'', ''8'']"
    by code_simp
  note f = t [THEN conjunct2, THEN conjunct2, THEN conjunct2, THEN conjunct2, THEN conjunct1, unfolded c]
  note g = t [THEN conjunct2, THEN conjunct2, THEN conjunct2, THEN conjunct2, THEN conjunct2, THEN conjunct1, unfolded c]
  have s1: "showNat (Suc 0) = ''1''" "showNat (Suc (Suc 0)) = ''2''" by code_simp+
  have 0: "openerIndices (renumberCard ''{{c5::a}} {{c5::b}} {{c8::c}}'') ! 0 = ''1''"
    using f [rule_format, of 0] s1 by simp
  have 2: "openerIndices (renumberCard ''{{c5::a}} {{c5::b}} {{c8::c}}'') ! 2 = ''2''"
    using f [rule_format, of 2] s1 by (simp add: numeral_2_eq_2 card_insert_if)
  have 1: "openerIndices (renumberCard ''{{c5::a}} {{c5::b}} {{c8::c}}'') ! 1 = ''1''"
    using g [rule_format, of 0 1] 0 by simp
  show ?thesis using default_delim_ok b c 0 1 2 by blast
qed

text \<open>
  With the delimiter \<open>1\<close> the claim as stated fails: the text
  \<open>{{c5::x}} {{c6::y}}\<close> is one card, its output \<open>{{c1::x}} {{c2::y}}\<close> has two
  delimiter-separated cards, and the second uses the index 2 only.
\<close>

theorem renumber_dense_counterexample:
  "renumberClozesPerCard ''{{c5::x}} {{c6::y}}'' ''1'' = ''{{c1::x}} {{c2::y}}''
   \<and> splitOn (delimOf ''1'') ''{{c5::x}} {{c6::y}}'' = [''{{c5::x}} {{c6::y}}'']
   \<and> splitOn (delimOf ''1'') (renumberClozesPerCard ''{{c5::x}} {{c6::y}}'' ''1'')
        = [''{{c'', ''::x}} {{c2::y}}'']
   \<and> openerIndices ''::x}} {{c2::y}}'' = [''2'']"
  by code_simp

section \<open>renumberClozesPerCard: idempotence\<close>

text \<open>
  Claim C4, as amended. Renumbering a card twice is renumbering it once; and for every
  text and every delimiter none of whose characters is \<open>{\<close>, \<open>c\<close>, \<open>:\<close> or a
  digit, \<open>renumberClozesPerCard\<close> applied twice gives what it gives applied once.
\<close>

theorem renumber_idempotent:
  "renumberCard (renumberCard cardText) = renumberCard cardText
   \<and> ((\<forall>c\<in>set (delimOf delimiter). \<not> isOpenerChar c) \<longrightarrow>
        renumberClozesPerCard (renumberClozesPerCard text delimiter) delimiter
          = renumberClozesPerCard text delimiter)"
proof -
  have "renumberClozesPerCard (renumberClozesPerCard text delimiter) delimiter
          = renumberClozesPerCard text delimiter"
    if h: "\<forall>c\<in>set (delimOf delimiter). \<not> isOpenerChar c"
  proof -
    let ?d = "delimOf delimiter"
    have "renumberClozesPerCard (renumberClozesPerCard text delimiter) delimiter
            = joinWith ?d (map renumberCard (splitOn ?d (renumberClozesPerCard text delimiter)))"
      by (simp add: renumberClozesPerCard_def Let_def)
    also have "\<dots> = joinWith ?d (map renumberCard (map renumberCard (splitOn ?d text)))"
      by (simp only: resplit_renumbered [OF h])
    also have "\<dots> = joinWith ?d (map renumberCard (splitOn ?d text))"
      by (simp add: renumberCard_idem comp_def)
    finally show ?thesis by (simp add: renumberClozesPerCard_def Let_def)
  qed
  then show ?thesis using renumberCard_idem by blast
qed

theorem renumber_idempotent_witness:
  "renumberClozesPerCard (renumberClozesPerCard ''{{c7::a}}===CARD==={{ c9 ::d}}'' '''') ''''
       = renumberClozesPerCard ''{{c7::a}}===CARD==={{ c9 ::d}}'' ''''
   \<and> renumberClozesPerCard ''{{c7::a}}===CARD==={{ c9 ::d}}'' '''' = ''{{c1::a}}===CARD==={{c1::d}}''"
proof -
  have "renumberClozesPerCard ''{{c7::a}}===CARD==={{ c9 ::d}}'' '''' = ''{{c1::a}}===CARD==={{c1::d}}''"
    by code_simp
  then show ?thesis
    using renumber_idempotent [of "[]" "''''" "''{{c7::a}}===CARD==={{ c9 ::d}}''"] default_delim_ok
    by blast
qed

text \<open>
  With the delimiter \<open>1\<close> the second pass cuts the output of the first inside its
  opener \<open>{{c1::\<close> and renumbers \<open>{{c2::y}}\<close> again.
\<close>

theorem renumber_idempotence_counterexample:
  "renumberClozesPerCard (renumberClozesPerCard ''{{c5::x}} {{c6::y}}'' ''1'') ''1''
     \<noteq> renumberClozesPerCard ''{{c5::x}} {{c6::y}}'' ''1''"
  by code_simp

section \<open>renumberClozesPerCard: the text outside the openers\<close>

text \<open>
  Claim C5, as amended. A card is the concatenation of its pieces, the characters outside
  the openers and the openers. The renumbered card has pieces of the same shape: the same
  characters outside the openers, in the same order and number, and an opener where the
  card has one, each written \<open>{{c<digits>::\<close> with no whitespace. The text is the join of
  its cards and the output the join, by the same delimiter, of the renumbered cards.
\<close>

theorem renumber_preserves_text_outside_openers:
  "cardText = render (scan (opener True) cardText)
   \<and> renumberCard cardText = render (scan (opener True) (renumberCard cardText))
   \<and> sameShape (scan (opener True) (renumberCard cardText)) (scan (opener True) cardText)
   \<and> lits (scan (opener True) (renumberCard cardText)) = lits (scan (opener True) cardText)
   \<and> (\<forall>p\<in>set (scan (opener True) (renumberCard cardText)). normalHit p)
   \<and> renumberClozesPerCard text delimiter
       = joinWith (delimOf delimiter) (map renumberCard (splitOn (delimOf delimiter) text))
   \<and> text = joinWith (delimOf delimiter) (splitOn (delimOf delimiter) text)"
proof -
  let ?ps = "scan (opener True) cardText"
  have s: "scan (opener True) (renumberCard cardText) = relabel Map.empty 1 ?ps"
    by (rule scan_renumberCard)
  have 1: "cardText = render ?ps" by (simp add: render_scan_opener)
  have 2: "renumberCard cardText = render (scan (opener True) (renumberCard cardText))"
    by (simp add: render_scan_opener)
  have 3: "sameShape (scan (opener True) (renumberCard cardText)) ?ps"
    unfolding s by (rule sameShape_relabel)
  have 4: "lits (scan (opener True) (renumberCard cardText)) = lits ?ps"
    using 3 by (rule sameShape_lits)
  have 5: "\<forall>p\<in>set (scan (opener True) (renumberCard cardText)). normalHit p"
    unfolding s by (rule relabel_normal) simp
  have 6: "renumberClozesPerCard text delimiter
       = joinWith (delimOf delimiter) (map renumberCard (splitOn (delimOf delimiter) text))"
    by (simp add: renumberClozesPerCard_def Let_def)
  have 7: "text = joinWith (delimOf delimiter) (splitOn (delimOf delimiter) text)"
    by (simp add: join_splitOn delimOf_not_Nil)
  show ?thesis using 1 2 3 4 5 6 7 by blast
qed

theorem renumber_preserves_text_outside_openers_witness:
  "lits (scan (opener True) (renumberCard ''a {{ c7 ::b}} c {{c7::d}}'')) = ''a b}} c d}}''
   \<and> renumberCard ''a {{ c7 ::b}} c {{c7::d}}'' = ''a {{c1::b}} c {{c1::d}}''
   \<and> normalHit (Hit ''{{c1::'' ''1'')"
proof -
  have a: "lits (scan (opener True) ''a {{ c7 ::b}} c {{c7::d}}'') = ''a b}} c d}}''"
    by code_simp
  have b: "renumberCard ''a {{ c7 ::b}} c {{c7::d}}'' = ''a {{c1::b}} c {{c1::d}}''"
    by code_simp
  have c: "scan (opener True) ''a {{c1::b}} c {{c1::d}}''
             = [Lit CHR ''a'', Lit CHR '' '', Hit ''{{c1::'' ''1'', Lit CHR ''b'', Lit CHR ''}'', Lit CHR ''}'',
                Lit CHR '' '', Lit CHR ''c'', Lit CHR '' '', Hit ''{{c1::'' ''1'', Lit CHR ''d'',
                Lit CHR ''}'', Lit CHR ''}'']"
    by code_simp
  note t = renumber_preserves_text_outside_openers [of "''a {{ c7 ::b}} c {{c7::d}}''" "[]" "[]"]
  have "normalHit (Hit ''{{c1::'' ''1'')"
    using t [THEN conjunct2, THEN conjunct2, THEN conjunct2, THEN conjunct2, THEN conjunct1]
    unfolding b c by simp
  moreover have "lits (scan (opener True) (renumberCard ''a {{ c7 ::b}} c {{c7::d}}'')) = ''a b}} c d}}''"
    using t a by simp
  ultimately show ?thesis using b by simp
qed

text \<open>
  More than the index can change in an opener: the whitespace in \<open>{{ c1 ::\<close> is
  dropped although the index stays 1.
\<close>

theorem renumber_frame_counterexample:
  "renumberClozesPerCard ''{{ c1 ::x}}'' ''===CARD==='' = ''{{c1::x}}''
   \<and> openerIndices ''{{ c1 ::x}}'' = [''1'']
   \<and> renumberClozesPerCard ''{{ c1 ::x}}'' ''===CARD==='' \<noteq> ''{{ c1 ::x}}''"
  by code_simp

section \<open>splitByDelimiter after joinByDelimiter\<close>

lemma noDelim_sublist: "noDelim d x \<longleftrightarrow> \<not> sublist d x"
  by (auto simp: noDelim_def sublist_def suffix_def prefix_def)

lemma trim_Nil [simp]: "trim [] = []"
  by (simp add: trim_def)

lemma trim_fixed_ends:
  assumes "trim p = p" "p \<noteq> []"
  shows "\<not> isSpace (hd p) \<and> \<not> isSpace (last p)"
proof -
  have l: "length (trim p) \<le> length (dropWhile isSpace p)"
    using length_dropWhile_le [of isSpace "rev (dropWhile isSpace p)"] by (simp add: trim_def)
  have a: "\<not> isSpace (hd p)"
  proof
    assume "isSpace (hd p)"
    then have "length (dropWhile isSpace p) < length p"
      using assms(2) by (cases p) (auto simp: less_Suc_eq_le length_dropWhile_le)
    then show False using l assms(1) by simp
  qed
  then have d: "dropWhile isSpace p = p" using assms(2) by (cases p) auto
  have "\<not> isSpace (last p)"
  proof
    assume "isSpace (last p)"
    then have "isSpace (hd (rev p))" using assms(2) by (simp add: hd_rev)
    then have "length (dropWhile isSpace (rev p)) < length (rev p)"
      using assms(2) by (cases "rev p") (auto simp: less_Suc_eq_le length_dropWhile_le)
    then have "length (trim p) < length p" unfolding trim_def d by simp
    then show False using assms(1) by simp
  qed
  then show ?thesis using a by simp
qed

lemma trim_padded:
  assumes "trim p = p" "p \<noteq> []" "\<forall>c\<in>set w. isSpace c" "\<forall>c\<in>set e. isSpace c"
  shows "trim (w @ p @ e) = p"
proof -
  from trim_fixed_ends [OF assms(1,2)] have h: "\<not> isSpace (hd p)" and l: "\<not> isSpace (last p)"
    by auto
  have 1: "dropWhile isSpace (w @ p @ e) = p @ e"
    using assms(2,3) h by (cases p) (auto simp: dropWhile_append)
  obtain r ps where rp: "rev p = r # ps" using assms(2) by (cases "rev p") auto
  then have "r = last p" using assms(2) by (metis hd_rev list.sel(1))
  then have "\<not> isSpace r" using l by simp
  then have a: "dropWhile isSpace (rev p) = rev p" unfolding rp by simp
  have "dropWhile isSpace (rev e @ rev p) = dropWhile isSpace (rev p)"
    using assms(4) by (simp add: dropWhile_append)
  then have 2: "dropWhile isSpace (rev e @ rev p) = rev p" using a by simp
  show ?thesis unfolding trim_def 1 by (simp add: 2)
qed

lemma sublist_skip_prefix:
  assumes "d \<noteq> []" "x \<notin> set d" "\<forall>c\<in>set a. c = x" "sublist d (a @ y)"
  shows "sublist d y"
  using assms(3,4)
proof (induction a)
  case Nil
  then show ?case by simp
next
  case (Cons n a)
  have "\<not> prefix d (n # (a @ y))"
    using assms(1,2) Cons.prems(1) by (cases d) auto
  then have "sublist d (a @ y)" using Cons.prems(2) by (simp add: sublist_Cons_right)
  then show ?case using Cons by simp
qed

lemma delimLast_newline:
  assumes "d \<noteq> []" "x \<notin> set d" "\<not> sublist d y"
  shows "delimLast d (y @ [x])"
proof (unfold delimLast_def, intro allI impI notI)
  fix b assume b: "suffix b (y @ [x]) \<and> b \<noteq> []" "prefix d (b @ d)"
  then obtain b' where b': "b = b' @ [x]" "suffix b' y"
    by (cases b rule: rev_cases) auto
  have "\<not> prefix d b'"
  proof
    assume "prefix d b'"
    then have "sublist d y" using b'(2) by (auto simp: sublist_def suffix_def prefix_def) 
    then show False using assms(3) by simp
  qed
  moreover from b(2) b'(1) have "prefix d (b' @ x # d)" by simp
  then have "prefix d b' \<or> (\<exists>us. d = b' @ us \<and> prefix us (x # d))"
    by (simp add: prefix_append)
  ultimately obtain us where us: "d = b' @ us" "prefix us (x # d)" by blast
  show False
  proof (cases us)
    case Nil
    then show ?thesis using us(1) \<open>\<not> prefix d b'\<close> by simp
  next
    case (Cons u us')
    then have "u = x" using us(2) by simp
    then show ?thesis using us(1) Cons assms(2) by simp
  qed
qed

lemma split_join_padded:
  assumes d: "d \<noteq> []" "CHR 0x0A \<notin> set d"
    and w: "w = [] \<or> w = [CHR 0x0A]"
    and ne: "parts \<noteq> []"
    and ok: "\<forall>p\<in>set parts. p \<noteq> [] \<and> trim p = p \<and> \<not> sublist d p"
  shows "map trim (splitOn d (w @ joinWith ([CHR 0x0A] @ d @ [CHR 0x0A]) parts)) = parts"
  using w ne ok
proof (induction parts arbitrary: w rule: induct_list012)
  case 1
  then show ?case by simp
next
  case (2 p)
  have sp: "\<forall>c\<in>set w. c = CHR 0x0A" "\<forall>c\<in>set w. isSpace c"
    using 2(1) by (auto simp: isSpace_def)
  have "\<not> sublist d (w @ p)" using sublist_skip_prefix [OF d sp(1)] 2(3) by auto
  then have "splitOn d (w @ p) = [w @ p]" using splitOn_noDelim [OF d(1)] noDelim_sublist by blast
  moreover have "trim (w @ p @ []) = p" using 2(3) sp(2) by (intro trim_padded) auto
  ultimately show ?case by simp
next
  case (3 p q ps)
  have sp: "\<forall>c\<in>set w. c = CHR 0x0A" "\<forall>c\<in>set w. isSpace c"
    using 3(3) by (auto simp: isSpace_def)
  have "\<not> sublist d (w @ p)" using sublist_skip_prefix [OF d sp(1)] 3(5) by auto
  then have dl: "delimLast d ((w @ p) @ [CHR 0x0A])" by (rule delimLast_newline [OF d])
  let ?rest = "[CHR 0x0A] @ joinWith ([CHR 0x0A] @ d @ [CHR 0x0A]) (q # ps)"
  have e: "w @ joinWith ([CHR 0x0A] @ d @ [CHR 0x0A]) (p # q # ps)
            = ((w @ p) @ [CHR 0x0A]) @ d @ ?rest"
    by simp
  have s: "splitOn d (w @ joinWith ([CHR 0x0A] @ d @ [CHR 0x0A]) (p # q # ps))
            = ((w @ p) @ [CHR 0x0A]) # splitOn d ?rest"
    unfolding e by (rule splitOn_delimLast [OF d(1) dl])
  have ih: "map trim (splitOn d ?rest) = q # ps"
    using 3(2) [of "[CHR 0x0A]"] 3(5) by simp
  have "trim (w @ p @ [CHR 0x0A]) = p"
    using 3(5) sp(2) by (intro trim_padded) (auto simp: isSpace_def)
  then show ?case using s ih by simp
qed

text \<open>
  Claim C7, as amended. For every delimiter that contains no line feed and every list of
  parts, each non-empty, equal to its own trim and without the delimiter as a substring,
  \<open>splitByDelimiter (joinByDelimiter parts d) d\<close> is the list of parts.
\<close>

theorem split_join_roundtrip:
  assumes "CHR 0x0A \<notin> set delimiter"
    and "\<forall>p\<in>set parts. p \<noteq> [] \<and> trim p = p \<and> \<not> sublist delimiter p"
  shows "splitByDelimiter (joinByDelimiter parts delimiter) delimiter = parts"
proof (cases "parts = []")
  case True
  then show ?thesis
    by (simp add: splitByDelimiter_def joinByDelimiter_def splitOn_Nil delimOf_not_Nil)
next
  case False
  then obtain p where "p \<in> set parts" by (cases parts) auto
  then have "\<not> sublist delimiter p" using assms(2) by blast
  then have dn: "delimiter \<noteq> []" by auto
  then have d: "delimOf delimiter = delimiter" by (simp add: delimOf_def)
  have "map trim (splitOn delimiter ([] @ joinWith ([CHR 0x0A] @ delimiter @ [CHR 0x0A]) parts)) = parts"
    by (rule split_join_padded [OF dn assms(1) _ False assms(2)]) simp
  moreover have "filter (\<lambda>s. length s > 0) parts = parts"
    using assms(2) by (auto simp: filter_id_conv)
  ultimately show ?thesis
    by (simp add: splitByDelimiter_def joinByDelimiter_def d)
qed

theorem split_join_roundtrip_witness:
  "splitByDelimiter (joinByDelimiter [''{{c1::a}} b'', ''c d''] ''===CARD==='') ''===CARD===''
     = [''{{c1::a}} b'', ''c d'']"
proof -
  have 1: "CHR 0x0A \<notin> set ''===CARD===''" by simp
  have t: "trim ''{{c1::a}} b'' = ''{{c1::a}} b''" "trim ''c d'' = ''c d''" by code_simp+
  have s: "\<not> sublist ''===CARD==='' ''{{c1::a}} b''" "\<not> sublist ''===CARD==='' ''c d''"
    by (simp_all add: sublist_Cons_right)
  have 2: "\<forall>p\<in>set [''{{c1::a}} b'', ''c d'']. p \<noteq> [] \<and> trim p = p \<and> \<not> sublist ''===CARD==='' p"
    using t s by simp
  show ?thesis by (rule split_join_roundtrip [OF 1 2])
qed

text \<open>
  \<open>joinByDelimiter\<close> puts a line feed on each side of the delimiter. With the delimiter
  \<open>a\<close>, line feed, \<open>a\<close> and the parts \<open>xa\<close> and \<open>y\<close>, the end of the first part and
  the line feed after it begin an occurrence of the delimiter: the round trip gives
  \<open>x\<close> and \<open>a\<close>, line feed, \<open>y\<close>.
\<close>

theorem split_join_roundtrip_counterexample:
  "splitByDelimiter (joinByDelimiter [''xa'', ''y''] [CHR ''a'', CHR 0x0A, CHR ''a'']) [CHR ''a'', CHR 0x0A, CHR ''a'']
     = [''x'', [CHR ''a'', CHR 0x0A, CHR ''y'']]
   \<and> trim ''xa'' = ''xa'' \<and> trim ''y'' = ''y''
   \<and> \<not> sublist [CHR ''a'', CHR 0x0A, CHR ''a''] ''xa'' \<and> \<not> sublist [CHR ''a'', CHR 0x0A, CHR ''a''] ''y''"
proof -
  have "splitByDelimiter (joinByDelimiter [''xa'', ''y''] [CHR ''a'', CHR 0x0A, CHR ''a'']) [CHR ''a'', CHR 0x0A, CHR ''a'']
     = [''x'', [CHR ''a'', CHR 0x0A, CHR ''y'']]"
    by code_simp
  moreover have "trim ''xa'' = ''xa''" "trim ''y'' = ''y''" by code_simp+
  moreover have "\<not> sublist [CHR ''a'', CHR 0x0A, CHR ''a''] ''xa''" "\<not> sublist [CHR ''a'', CHR 0x0A, CHR ''a''] ''y''"
    by (simp_all add: sublist_Cons_right)
  ultimately show ?thesis by blast
qed

section \<open>enforceClozeWordLimit and openers written with whitespace\<close>

text \<open>
  Claim C9, as amended. A span whose opener has whitespace after \<open>{{\<close> or around the
  index is matched by the opener pattern of \<open>capClozesToInput\<close> and
  \<open>renumberClozesPerCard\<close> and not by the one of \<open>enforceClozeWordLimit\<close>. Let such a
  span stand anywhere in a text, \<open>before @ span @ after\<close>, with no opener written exactly
  as \<open>{{c<digits>::\<close> starting in its content, and with every exactly written opener
  that starts in \<open>before\<close> closed by a \<open>}}\<close> inside \<open>before\<close>. Then, for every
  \<open>maxWords\<close> and whatever the number of tokens of the content,
  \<open>enforceClozeWordLimit\<close> returns the span character for character, between the results
  for \<open>before\<close> and for \<open>after\<close>. So it does for
  \<open>{{ c1 ::one two three four five}}\<close>, alone and inside a sentence.
\<close>

theorem enforce_skips_loose_openers:
  assumes "\<forall>x\<in>set w1. isSpace x" "\<forall>x\<in>set w2. isSpace x" "w1 @ w2 \<noteq> []"
    and "n \<noteq> []" "\<forall>x\<in>set n. isDigit x"
    and "\<forall>b. suffix b content \<longrightarrow> opener False b = None"
    and "\<forall>b k r. suffix b before \<longrightarrow> opener False b = Some (k, r) \<longrightarrow> findClose r \<noteq> None"
  shows "opener True (''{{'' @ w1 @ ''c'' @ n @ w2 @ ''::'' @ content @ ''}}'') = Some (n, content @ ''}}'')
     \<and> opener False (''{{'' @ w1 @ ''c'' @ n @ w2 @ ''::'' @ content @ ''}}'') = None
     \<and> enforceClozeWordLimit (before @ (''{{'' @ w1 @ ''c'' @ n @ w2 @ ''::'' @ content @ ''}}'') @ after) maxWords
          = enforceClozeWordLimit before maxWords
            @ (''{{'' @ w1 @ ''c'' @ n @ w2 @ ''::'' @ content @ ''}}'')
            @ enforceClozeWordLimit after maxWords
     \<and> enforceClozeWordLimit ''{{ c1 ::one two three four five}}'' 3
          = ''{{ c1 ::one two three four five}}''
     \<and> enforceClozeWordLimit ''The parasite {{ c1 ::one two three four five}} is bad'' 3
          = ''The parasite {{ c1 ::one two three four five}} is bad''"
proof -
  let ?t = "''{{'' @ w1 @ ''c'' @ n @ w2 @ ''::'' @ content @ ''}}''"
  have 1: "opener True ?t = Some (n, content @ ''}}'')"
    using assms(1-5) by (intro opener_intro) auto
  have all: "opener False b = None" if "suffix b ?t" for b
    using loose_span_no_strict_opener [OF assms(1-6) that] .
  have 2: "opener False ?t = None" using all [of ?t] by simp
  have "\<forall>b. suffix b ?t \<longrightarrow> span False b = None"
    using all span_None_opener by blast
  then have lit: "scan (span False) ?t = map Lit ?t"
    by (rule scan_all_Lit)
  have a: "scan (span False) (?t @ after) = scan (span False) ?t @ scan (span False) after"
  proof (rule scan_append, intro allI impI)
    fix b assume b: "suffix b ?t \<and> b \<noteq> []"
    then have o: "opener False b = None" using all by blast
    from b obtain zs where zs: "?t = zs @ b" by (auto simp: suffix_def)
    have "last (zs @ b) = last b" using b by simp
    then have "last b = last ?t" by (simp only: zs)
    then have "last b = CHR ''}''" by simp
    then show "case span False b of
           None \<Rightarrow> span False (b @ after) = None
         | Some (g, rest) \<Rightarrow> span False (b @ after) = Some (g, rest @ after) \<and> suffix rest b \<and> rest \<noteq> b"
      using b o by (intro span_strict_append) auto
  qed
  have p: "scan (span False) (before @ (?t @ after))
             = scan (span False) before @ scan (span False) (?t @ after)"
  proof (rule scan_append, intro allI impI)
    fix b assume b: "suffix b before \<and> b \<noteq> []"
    have "\<exists>u. ?t @ after = CHR ''{'' # CHR ''{'' # u" by simp
    moreover have "\<forall>k r. opener False b = Some (k, r) \<longrightarrow> findClose r \<noteq> None"
      using assms(7) b by blast
    ultimately show "case span False b of
           None \<Rightarrow> span False (b @ (?t @ after)) = None
         | Some (g, rest) \<Rightarrow> span False (b @ (?t @ after)) = Some (g, rest @ (?t @ after))
             \<and> suffix rest b \<and> rest \<noteq> b"
      using b by (intro span_strict_append) blast+
  qed
  have "scan (span False) (before @ ?t @ after)
          = scan (span False) before @ map Lit ?t @ scan (span False) after"
    using p a lit by simp
  then have 3: "enforceClozeWordLimit (before @ ?t @ after) maxWords
          = enforceClozeWordLimit before maxWords @ ?t @ enforceClozeWordLimit after maxWords"
    unfolding concat_limitSpan_scan by (simp only: map_append concat_append concat_limitSpan_Lit)
  have 4: "enforceClozeWordLimit ''{{ c1 ::one two three four five}}'' 3
          = ''{{ c1 ::one two three four five}}''"
    by code_simp
  have 5: "enforceClozeWordLimit ''The parasite {{ c1 ::one two three four five}} is bad'' 3
          = ''The parasite {{ c1 ::one two three four five}} is bad''"
    by code_simp
  show ?thesis using 1 2 3 4 5 by blast
qed

theorem enforce_skips_loose_openers_witness:
  "enforceClozeWordLimit (''x {{c3::a b c d}} '' @ ''{{ c12 ::alpha beta gamma delta}}'' @ '' y {{c2::e f g h}}'') 3
     = ''x {{c3::a b c}} '' @ ''{{ c12 ::alpha beta gamma delta}}'' @ '' y {{c2::e f g}}''
   \<and> opener True ''{{ c12 ::alpha beta gamma delta}}'' = Some (''12'', ''alpha beta gamma delta}}'')"
proof -
  have a: "\<forall>x\<in>set '' ''. isSpace x" by (simp add: isSpace_def)
  have b: "'' '' @ '' '' \<noteq> []" by simp
  have c: "''12'' \<noteq> []" "\<forall>x\<in>set ''12''. isDigit x" by (simp_all add: isDigit_def)
  have d: "\<forall>b. suffix b ''alpha beta gamma delta'' \<longrightarrow> opener False b = None"
  proof (intro allI impI)
    fix b assume "suffix b ''alpha beta gamma delta''"
    then have "set b \<subseteq> set ''alpha beta gamma delta''" by (rule set_mono_suffix)
    then have "CHR ''{'' \<notin> set b" by auto
    then show "opener False b = None" by (intro opener_None_hd) (cases b, auto)
  qed
  have "\<forall>b\<in>set (suffixes ''x {{c3::a b c d}} '').
          \<forall>k r. opener False b = Some (k, r) \<longrightarrow> findClose r \<noteq> None"
    by (simp add: suffixes_eq_snoc opener_def skipWs_def isDigit_def)
  then have e: "\<forall>b k r. suffix b ''x {{c3::a b c d}} '' \<longrightarrow> opener False b = Some (k, r)
          \<longrightarrow> findClose r \<noteq> None"
    by (simp only: in_set_suffixes [symmetric]) blast
  have f: "enforceClozeWordLimit ''x {{c3::a b c d}} '' 3 = ''x {{c3::a b c}} ''"
    "enforceClozeWordLimit '' y {{c2::e f g h}}'' 3 = '' y {{c2::e f g}}''"
    by code_simp+
  from enforce_skips_loose_openers [OF a a b c d e, of "'' y {{c2::e f g h}}''" 3] f
  show ?thesis by simp
qed

theorem enforce_skips_loose_openers_counterexample:
  "enforceClozeWordLimit ''{{ c1 ::{{c2::a b c d e}}'' 3 = ''{{ c1 ::{{c2::a b c}}''
   \<and> span True ''{{ c1 ::{{c2::a b c d e}}'' = Some ((''1'', ''{{c2::a b c d e''), [])
   \<and> enforceClozeWordLimit ''{{c1::x {{ c2 ::a b c d e}}'' 3 = ''{{c1::x c2 a}}''"
  by code_simp

section \<open>pickAnchorWords on the phrase "Schuffner's dots are seen"\<close>

text \<open>
  Claim C8, as amended. Let the content contain \<open>Schuffner's dots are seen\<close> at the start
  or after a character that is not a word character, and let the first pattern,
  \<open>/\bhypnozoite\b/i\<close>, not match the trimmed content. Then \<open>pickAnchorWords\<close> returns
  exactly \<open>Schuffner's dots\<close>, for \<open>maxWords = 3\<close> and for every other value: the
  second pattern matches, its match contains \<open>Schuffner\<close>, and the content contains
  \<open>dot\<close>. So it does for the content \<open>Schuffner's dots are seen\<close> itself.
\<close>

theorem pickAnchorWords_schuffners_dots:
  assumes "content = pre @ schuffnersDots @ '' are seen'' @ post"
    and "pre = [] \<or> \<not> isWordChar (last pre)"
    and "\<not> testRx (kw (lit ''hypnozoite'')) (trim content)"
  shows "pickAnchorWords content maxWords = schuffnersDots
     \<and> pickAnchorWords (schuffnersDots @ '' are seen'') 3 = schuffnersDots"
proof -
  let ?p2 = "kw (lit ''Schuffner'' @ [Opt (CHR 0x27), Req CHR ''s''])"
  let ?a = "dropWhile isSpace pre"
  let ?b = "rev (dropWhile isSpace (rev post))"
  let ?m = "schuffnersDots @ '' are seen''"
  have m: "?m \<noteq> []" "\<not> isSpace (hd ?m)" "\<not> isSpace (last ?m)"
    by (simp_all add: schuffnersDots_def isSpace_def)
  have "trim (pre @ ?m @ post) = ?a @ ?m @ ?b" using m by (rule trim_middle)
  then have s: "trim content = ?a @ (schuffnersDots @ '' are seen'' @ ?b)"
    using assms(1) by simp
  have a: "?a = [] \<or> \<not> isWordChar (last ?a)"
    using assms(2) by (rule last_dropWhile_keeps)
  have nm: "matchRx ?p2 (prevOf None ?a) (schuffnersDots @ '' are seen'' @ ?b) \<noteq> None"
    using a by (rule schuffner_pattern_matches)
  have "searchRx ?p2 None (trim content) \<noteq> None"
  proof
    assume "searchRx ?p2 None (trim content) = None"
    then have "matchRx ?p2 (prevOf None ?a) (schuffnersDots @ '' are seen'' @ ?b) = None"
      using s by (rule searchRx_None)
    with nm show False by (rule notE)
  qed
  then obtain w where w: "searchRx ?p2 None (trim content) = Some w" by blast
  have "?p2 \<in> set patterns" by (simp add: patterns_def)
  then have "map toLower w \<in> set (map (map toLower) (rxForms ?p2))"
    using pattern_match_sound [OF _ w] by blast
  then have 1: "sublist ''schuffner'' (map toLower w)" by (rule schuffner_forms)
  have 2: "sublist ''dot'' (map toLower (trim content))"
    unfolding s by (rule phrase_has_dot)
  have 3: "\<forall>r\<in>set [kw (lit ''hypnozoite'')]. searchRx r None (trim content) = None"
    using assms(3) by (simp add: testRx_def)
  have "patterns = [kw (lit ''hypnozoite'')] @ ?p2 # drop 2 patterns"
    by (simp add: patterns_def)
  then have "keywordAnchor patterns (trim content) = Some schuffnersDots"
    using keywordAnchor_first [OF 3 w, of "drop 2 patterns"] 1 2 by simp
  then have 4: "pickAnchorWords content maxWords = schuffnersDots"
    by (simp add: pickAnchorWords_def)
  have 5: "pickAnchorWords (schuffnersDots @ '' are seen'') 3 = schuffnersDots"
    by code_simp
  show ?thesis using 4 5 by (rule conjI)
qed

theorem pickAnchorWords_schuffners_dots_witness:
  "pickAnchorWords (''In P. vivax, '' @ schuffnersDots @ '' are seen'' @ '' in red cells.'') 3
     = schuffnersDots"
proof -
  have a: "''In P. vivax, '' = [] \<or> \<not> isWordChar (last ''In P. vivax, '')"
    by (simp add: isWordChar_def)
  have b: "\<not> testRx (kw (lit ''hypnozoite''))
            (trim (''In P. vivax, '' @ schuffnersDots @ '' are seen'' @ '' in red cells.''))"
    by code_simp
  show ?thesis
    using pickAnchorWords_schuffners_dots [OF refl a b] by (rule conjunct1)
qed

theorem pickAnchorWords_schuffners_dots_counterexample:
  "pickAnchorWords (''A hypnozoite; '' @ schuffnersDots @ '' are seen'') 3 = ''hypnozoite''
   \<and> pickAnchorWords (''x'' @ schuffnersDots @ '' are seen'') 3 = ''dots''"
  by code_simp

end
